theory Spec2Isabelle
  imports Complex_Main "HOL-Library.Multiset" "HOL-Library.Sublist"
begin

section \<open>The mind-map layout engine of \<open>src/App.jsx\<close>\<close>

text \<open>
  The component \<open>MindMapRenderer\<close> keeps a set of collapsed node ids, seeds it when a
  tree is loaded (\<open>collapseRecursively\<close>), flips one id on a click (\<open>handleToggle\<close>)
  and recomputes the whole layout on every render (\<open>calculateLayout\<close>, made of
  \<open>assignCoords\<close> followed by \<open>collect\<close>).

  Numbers are JavaScript doubles (binary64) in the source and rationals here. The
  products and sums of integers that give \<open>x\<close>, the \<open>y\<close> of a leaf, the widths and the
  edge anchors are whole or half or quarter numbers far below \<open>2^53\<close> for every tree
  that fits in memory, so they are computed exactly. The \<open>y\<close> of an internal node is
  not: each nesting level of \<open>(firstChildY + lastChildY) / 2\<close> can add a binary digit,
  and from some 46 levels on the sum no longer fits the 53 bits of a double and is
  rounded. The rounding of a double operation is therefore a parameter \<open>fl\<close> of
  \<open>assignCoords\<close> and \<open>calculateLayout\<close>, applied to that sum and to its half;
  every statement below holds for every function \<open>fl\<close>, rounding to nearest included.
  The bounding box adds 200 to the largest \<open>y\<close>, which under rounding to nearest is
  the \<open>y\<close> of a leaf, so that sum is exact as well.
\<close>

subsection \<open>Data\<close>

text \<open>
  A tree node as the component receives it: \<open>{id, label, type, children}\<close>. The field
  \<open>children\<close> may be missing in the source; every function tests
  \<open>node.children && node.children.length > 0\<close> (or its negation, or iterates over it
  after that test), so a missing array and an empty one behave alike and both are the
  empty list here. The \<open>type\<close> is only ever compared with the string \<open>code\<close>.
  The length of \<open>label\<close> is the number of its elements (UTF-16 units in the source).
\<close>

datatype tree = Node (nid: string) (label: string) (ntype: string) (children: "tree list")

text \<open>
  The object \<open>processedNode\<close> that \<open>assignCoords\<close> builds: the spread copy of the
  node, with \<open>depth\<close>, \<open>isCollapsed\<close>, \<open>x\<close>, \<open>y\<close>, and later \<open>halfWidth\<close>
  (written by \<open>collect\<close>, \<open>None\<close> while it is undefined). Its \<open>children\<close> field
  holds one of two things, kept apart here: in the branch that returns early (the node is
  collapsed or has no children) the array of the copied, unprocessed nodes, \<open>praw\<close>; in
  the other branch the array of processed children, \<open>pchildren\<close>. The field that does
  not apply is empty.
\<close>

datatype pnode = PNode (pid: string) (plabel: string) (ptype: string)
  (pchildren: "pnode list") (praw: "tree list")
  (depth: nat) (isCollapsed: bool) (px: rat) (py: rat) (halfWidth: "rat option")

record edge =
  x1 :: rat
  y1 :: rat
  x2 :: rat
  y2 :: rat

record layout =
  nodes :: "pnode list"
  edges :: "edge list"
  width :: rat
  height :: rat

text \<open>
  What is passed as \<open>data\<close> or \<open>root\<close>: \<open>undefined\<close>, \<open>null\<close> or a tree object.
\<close>

datatype jsroot = Undefined | Null | Present tree

datatype error = TypeError | SyntaxError

subsection \<open>Collapse state\<close>

text \<open>
  \<open>collapseRecursively\<close> adds to the set \<open>initialCollapsed\<close>, threaded here as the
  last argument; \<open>dataId\<close> is \<open>data.id\<close>, the id of the root. The effect runs it
  under \<open>if (data)\<close>, which \<open>null\<close> and \<open>undefined\<close> fail.
\<close>

fun collapseRecursively :: "string \<Rightarrow> tree \<Rightarrow> string set \<Rightarrow> string set" where
  "collapseRecursively dataId (Node i l ty ch) initialCollapsed =
     (if ch \<noteq> []
      then fold (collapseRecursively dataId) ch
             (if i \<noteq> dataId then insert i initialCollapsed else initialCollapsed)
      else initialCollapsed)"

definition seed :: "jsroot \<Rightarrow> string set" where
  "seed data = (case data of
                  Present r \<Rightarrow> collapseRecursively (nid r) r {}
                | _ \<Rightarrow> {})"

definition handleToggle :: "string \<Rightarrow> string set \<Rightarrow> string set" where
  "handleToggle i prev = (if i \<in> prev then prev - {i} else insert i prev)"

subsection \<open>Layout\<close>

text \<open>\<open>getLeafCount\<close>: the number of vertical slots a node takes.\<close>

fun getLeafCount :: "string set \<Rightarrow> tree \<Rightarrow> nat" where
  "getLeafCount collapsedSet (Node i l ty ch) =
     (if i \<in> collapsedSet then 1
      else if ch = [] then 1
      else fold (\<lambda>child acc. acc + getLeafCount collapsedSet child) ch 0)"

text \<open>
  \<open>assignCoords\<close> reads and increments the variable \<open>currentLeafY\<close>; it is the last
  argument and the second component of the result. \<open>assignChildren\<close> is the
  \<open>children.map\<close> of the source, left to right. The first argument \<open>fl\<close> is the
  rounding of a double operation, see above.
\<close>

fun assignCoords :: "(rat \<Rightarrow> rat) \<Rightarrow> string set \<Rightarrow> tree \<Rightarrow> nat \<Rightarrow> nat \<Rightarrow> pnode \<times> nat"
  and assignChildren :: "(rat \<Rightarrow> rat) \<Rightarrow> string set \<Rightarrow> tree list \<Rightarrow> nat \<Rightarrow> nat \<Rightarrow> pnode list \<times> nat" where
  "assignCoords fl collapsedSet (Node i l ty ch) d currentLeafY =
     (let isC = (i \<in> collapsedSet) in
      if isC \<or> ch = []
      then (PNode i l ty [] ch d isC (of_nat d * 300 + 100) (of_nat currentLeafY * 80 + 50) None,
            currentLeafY + 1)
      else (case assignChildren fl collapsedSet ch (d + 1) currentLeafY of
              (kids, leafY) \<Rightarrow>
                (let firstChildY = py (hd kids);
                     lastChildY = py (last kids)
                 in (PNode i l ty kids [] d isC (of_nat d * 300 + 100)
                       (fl (fl (firstChildY + lastChildY) / 2)) None, leafY))))"
| "assignChildren fl collapsedSet [] d currentLeafY = ([], currentLeafY)"
| "assignChildren fl collapsedSet (child # rest) d currentLeafY =
     (case assignCoords fl collapsedSet child d currentLeafY of
        (p, leafY) \<Rightarrow>
          (case assignChildren fl collapsedSet rest d leafY of
             (ps, leafY') \<Rightarrow> (p # ps, leafY')))"

text \<open>\<open>calculatedWidth\<close> of \<open>MindMapNode\<close>, the width of the box that is drawn.\<close>

definition calculatedWidth :: "string \<Rightarrow> string \<Rightarrow> rat" where
  "calculatedWidth lbl ty =
     (let isCode = (ty = ''code'');
          charWidth = (if isCode then 15 / 2 else 7);
          padding = 30;
          minWidth = 140
      in max minWidth (of_nat (length lbl) * charWidth + padding))"

text \<open>
  \<open>collect\<close> pushes onto the arrays \<open>nodes\<close> and \<open>edges\<close> and writes \<open>halfWidth\<close>
  into the node it visits. The arrays hold references, so what the caller reads from
  \<open>nodes\<close> is each node as it is when \<open>collect\<close> has finished; the result is therefore
  the node as finally written, the nodes pushed by the call in order, and the edges
  pushed by the call in order. \<open>collectChildren\<close> is the \<open>forEach\<close> over the children
  of the node at \<open>(x, y)\<close> with half width \<open>halfW\<close>; a collapsed node is not descended
  into, so its children stay as they are.
\<close>

fun collect :: "pnode \<Rightarrow> pnode \<times> pnode list \<times> edge list"
  and collectChildren :: "rat \<Rightarrow> rat \<Rightarrow> rat \<Rightarrow> pnode list \<Rightarrow> pnode list \<times> pnode list \<times> edge list" where
  "collect (PNode i l ty kids raw d isC x y hw) =
     (let isCode = (ty = ''code'');
          charWidth = (if isCode then 15 / 2 else 7);
          w = max 140 (of_nat (length l) * charWidth + 30);
          halfW = w / 2
      in if \<not> isC
         then (case collectChildren x halfW y kids of
                 (kids', ns, es) \<Rightarrow>
                   (let n = PNode i l ty kids' raw d isC x y (Some halfW)
                    in (n, n # ns, es)))
         else (let n = PNode i l ty kids raw d isC x y (Some halfW)
               in (n, [n], [])))"
| "collectChildren x halfW y [] = ([], [], [])"
| "collectChildren x halfW y (child # rest) =
     (let childIsCode = (ptype child = ''code'');
          childCharWidth = (if childIsCode then 15 / 2 else 7);
          childWidth = max 140 (of_nat (length (plabel child)) * childCharWidth + 30);
          childHalfWidth = childWidth / 2;
          e = \<lparr>x1 = x + halfW, y1 = y, x2 = px child - childHalfWidth, y2 = py child\<rparr>
      in case collect child of
           (child', ns, es) \<Rightarrow>
             (case collectChildren x halfW y rest of
                (rest', ns', es') \<Rightarrow> (child' # rest', ns @ ns', e # es @ es')))"

text \<open>
  \<open>calculateLayout\<close>. \<open>JSON.parse(JSON.stringify(root))\<close> yields a structurally equal
  copy of a tree and \<open>null\<close> for \<open>null\<close>, on which the first statement of
  \<open>assignCoords\<close> reads \<open>node.id\<close> and throws a \<open>TypeError\<close>; for \<open>undefined\<close>,
  \<open>JSON.stringify\<close> returns \<open>undefined\<close> and \<open>JSON.parse\<close> throws a
  \<open>SyntaxError\<close>. \<open>n.halfWidth || 70\<close> is 70 when the field is undefined or zero.
\<close>

definition calculateLayout :: "(rat \<Rightarrow> rat) \<Rightarrow> jsroot \<Rightarrow> string set \<Rightarrow> error + layout" where
  "calculateLayout fl rootNode collapsedSet =
     (case rootNode of
        Undefined \<Rightarrow> Inl SyntaxError
      | Null \<Rightarrow> Inl TypeError
      | Present r \<Rightarrow>
          (case assignCoords fl collapsedSet r 0 0 of
             (layoutRoot, leafY) \<Rightarrow>
               (case collect layoutRoot of
                  (layoutRoot', ns, es) \<Rightarrow>
                    (let maxX = fold (\<lambda>n m. max m (px n +
                                   (case halfWidth n of
                                      None \<Rightarrow> 70
                                    | Some h \<Rightarrow> if h = 0 then 70 else h))) ns 0;
                         maxY = fold (\<lambda>n m. max m (py n)) ns 0
                     in Inr \<lparr>nodes = ns, edges = es,
                             width = max 800 (maxX + 200),
                             height = max 600 (maxY + 200)\<rparr>))))"

text \<open>
  The two click handlers of \<open>MindMapNode\<close>, applied to the collapsed set: the one of
  the box calls \<open>onToggle\<close> under \<open>if (hasChildren)\<close> only; the toggle button is
  rendered under \<open>hasChildren &&\<close> only, so for a node without children there is no
  such handler (\<open>None\<close>). \<open>onToggle\<close> is \<open>handleToggle\<close>, and it is passed to
  nothing else.
\<close>

definition hasChildren :: "pnode \<Rightarrow> bool" where
  "hasChildren n = (pchildren n \<noteq> [] \<or> praw n \<noteq> [])"



text \<open>
  \<open>MindMapApp\<close> mounts \<open>MindMapRenderer\<close>, which runs \<open>calculateLayout\<close> on its
  \<open>data\<close>, under \<open>activeMindMap &&\<close> only; otherwise it shows a placeholder and no
  layout is computed (\<open>None\<close>).
\<close>

definition mindMapPanel :: "(rat \<Rightarrow> rat) \<Rightarrow> jsroot \<Rightarrow> string set \<Rightarrow> (error + layout) option" where
  "mindMapPanel fl activeMindMap collapsed =
     (case activeMindMap of
        Present t \<Rightarrow> Some (calculateLayout fl (Present t) collapsed)
      | _ \<Rightarrow> None)"

subsection \<open>The layout on a store\<close>

text \<open>
  The definitions above compute with values, so they cannot say what happens to the
  objects of the caller. For that, \<open>calculateLayout\<close> is written once more over a
  store: a list of objects, an object being referred to by its index. An object has
  the four fields of a tree node and the five that the layout adds, each of these
  \<open>None\<close> while the object does not have it. The field \<open>children\<close> holds the
  references of the children; the source never changes an array in place (it assigns a
  new array to \<open>processedNode.children\<close> and pushes onto its own \<open>nodes\<close> and
  \<open>edges\<close> only), so an array is a value here. A number that is read from a field
  the object does not have is \<open>undefined\<close>, and arithmetic on it gives \<open>NaN\<close>;
  both are \<open>None\<close>. A recursion gets fuel, and \<open>None\<close> as a result is a thrown
  \<open>TypeError\<close> or the end of the fuel.
\<close>

type_synonym addr = nat

record obj =
  o_id :: string
  o_label :: string
  o_type :: string
  o_children :: "addr list"
  o_depth :: "nat option"
  o_isCollapsed :: "bool option"
  o_x :: "rat option"
  o_y :: "rat option"
  o_halfWidth :: "rat option"

type_synonym heap = "obj list"

record oedge =
  ox1 :: "rat option"
  oy1 :: "rat option"
  ox2 :: "rat option"
  oy2 :: "rat option"

record hlayout =
  hnodes :: "addr list"
  hedges :: "oedge list"
  hwidth :: "rat option"
  hheight :: "rat option"

text \<open>A new object: it is put behind the objects there are.\<close>

definition alloc :: "heap \<Rightarrow> obj \<Rightarrow> heap \<times> addr" where
  "alloc h ob = (h @ [ob], length h)"

text \<open>
  \<open>JSON.stringify\<close> reads the tree below an object, \<open>JSON.parse\<close> builds new objects
  for a tree, children first.
\<close>

primrec stringify :: "nat \<Rightarrow> heap \<Rightarrow> addr \<Rightarrow> tree option" where
  "stringify 0 h a = None"
| "stringify (Suc n) h a =
     (if a < length h
      then map_option (Node (o_id (h ! a)) (o_label (h ! a)) (o_type (h ! a)))
             (those (map (stringify n h) (o_children (h ! a))))
      else None)"

primrec parseAll :: "(heap \<Rightarrow> heap \<times> addr) list \<Rightarrow> heap \<Rightarrow> heap \<times> addr list" where
  "parseAll [] h = (h, [])"
| "parseAll (f # fs) h =
     (case f h of (h1, a) \<Rightarrow> (case parseAll fs h1 of (h2, as) \<Rightarrow> (h2, a # as)))"

primrec parse :: "tree \<Rightarrow> heap \<Rightarrow> heap \<times> addr" where
  "parse (Node i l ty ch) h =
     (case parseAll (map parse ch) h of
        (h1, as) \<Rightarrow>
          alloc h1 \<lparr>o_id = i, o_label = l, o_type = ty, o_children = as, o_depth = None,
                    o_isCollapsed = None, o_x = None, o_y = None, o_halfWidth = None\<rparr>)"

text \<open>\<open>Array.map\<close> and \<open>Array.forEach\<close> with a callback that changes the state.\<close>

primrec mapM :: "('a \<Rightarrow> 's \<Rightarrow> ('b \<times> 's) option) \<Rightarrow> 'a list \<Rightarrow> 's \<Rightarrow> ('b list \<times> 's) option" where
  "mapM f [] s = Some ([], s)"
| "mapM f (x # xs) s =
     (case f x s of
        None \<Rightarrow> None
      | Some (y, s1) \<Rightarrow>
          (case mapM f xs s1 of None \<Rightarrow> None | Some (ys, s2) \<Rightarrow> Some (y # ys, s2)))"

primrec forEachM :: "('a \<Rightarrow> 's \<Rightarrow> 's option) \<Rightarrow> 'a list \<Rightarrow> 's \<Rightarrow> 's option" where
  "forEachM f [] s = Some s"
| "forEachM f (x # xs) s = (case f x s of None \<Rightarrow> None | Some s1 \<Rightarrow> forEachM f xs s1)"

text \<open>
  \<open>assignCoords\<close>: the state is the store and \<open>currentLeafY\<close>. The spread
  \<open>{...node, depth, isCollapsed}\<close> is a new object with the fields of \<open>node\<close>, its
  array of children included; all writes go to that new object.
\<close>

primrec assignCoordsH ::
  "(rat \<Rightarrow> rat) \<Rightarrow> nat \<Rightarrow> string set \<Rightarrow> nat \<Rightarrow> addr \<Rightarrow> heap \<times> nat \<Rightarrow> (addr \<times> heap \<times> nat) option" where
  "assignCoordsH fl 0 collapsedSet d node s = None"
| "assignCoordsH fl (Suc n) collapsedSet d node s =
     (case s of (h, currentLeafY) \<Rightarrow>
      if node < length h
      then (let isC = (o_id (h ! node) \<in> collapsedSet) in
            case alloc h ((h ! node)\<lparr>o_depth := Some d, o_isCollapsed := Some isC\<rparr>) of
              (h1, processedNode) \<Rightarrow>
                if isC \<or> o_children (h1 ! processedNode) = []
                then Some (processedNode,
                           h1[processedNode := (h1 ! processedNode)
                                \<lparr>o_x := Some (of_nat d * 300 + 100),
                                 o_y := Some (of_nat currentLeafY * 80 + 50)\<rparr>],
                           currentLeafY + 1)
                else (case mapM (assignCoordsH fl n collapsedSet (d + 1))
                             (o_children (h1 ! processedNode)) (h1, currentLeafY) of
                        None \<Rightarrow> None
                      | Some (kids, h2, leafY) \<Rightarrow>
                          (let h3 = h2[processedNode := (h2 ! processedNode)\<lparr>o_children := kids\<rparr>]
                           in if kids = [] then None
                              else (let firstChildY = o_y (h3 ! hd kids);
                                        lastChildY = o_y (h3 ! last kids);
                                        y = (case (firstChildY, lastChildY) of
                                               (Some a, Some b) \<Rightarrow> Some (fl (fl (a + b) / 2))
                                             | _ \<Rightarrow> None)
                                    in Some (processedNode,
                                             h3[processedNode := (h3 ! processedNode)
                                                  \<lparr>o_x := Some (of_nat d * 300 + 100), o_y := y\<rparr>],
                                             leafY)))))
      else None)"

text \<open>\<open>collect\<close>: the state is the store and the arrays \<open>nodes\<close> and \<open>edges\<close>.\<close>

primrec collectH :: "nat \<Rightarrow> addr \<Rightarrow> heap \<times> addr list \<times> oedge list \<Rightarrow> (heap \<times> addr list \<times> oedge list) option" where
  "collectH 0 node s = None"
| "collectH (Suc n) node s =
     (case s of (h, ns, es) \<Rightarrow>
      if node < length h
      then (let isCode = (o_type (h ! node) = ''code'');
                charWidth = (if isCode then 15 / 2 else 7);
                w = max 140 (of_nat (length (o_label (h ! node))) * charWidth + 30);
                halfW = w / 2;
                h1 = h[node := (h ! node)\<lparr>o_halfWidth := Some halfW\<rparr>];
                ns1 = ns @ [node]
            in if o_isCollapsed (h1 ! node) \<noteq> Some True
               then forEachM (\<lambda>child (hc, nsc, esc).
                       if child < length hc
                       then (let childIsCode = (o_type (hc ! child) = ''code'');
                                 childCharWidth = (if childIsCode then 15 / 2 else 7);
                                 childWidth = max 140 (of_nat (length (o_label (hc ! child))) *
                                                childCharWidth + 30);
                                 childHalfWidth = childWidth / 2
                             in collectH n child
                                  (hc, nsc,
                                   esc @ [\<lparr>ox1 = map_option (\<lambda>x. x + halfW) (o_x (hc ! node)),
                                           oy1 = o_y (hc ! node),
                                           ox2 = map_option (\<lambda>x. x - childHalfWidth) (o_x (hc ! child)),
                                           oy2 = o_y (hc ! child)\<rparr>]))
                       else None)
                     (o_children (h1 ! node)) (h1, ns1, es)
               else Some (h1, ns1, es))
      else None)"

text \<open>
  \<open>calculateLayout\<close> on a root that is an object of the store: the store it leaves and
  what it returns, the nodes as references.
\<close>

definition calculateLayoutH ::
  "(rat \<Rightarrow> rat) \<Rightarrow> nat \<Rightarrow> heap \<Rightarrow> addr \<Rightarrow> string set \<Rightarrow> (heap \<times> hlayout) option" where
  "calculateLayoutH fl fuel h rootNode collapsedSet =
     (case stringify fuel h rootNode of
        None \<Rightarrow> None
      | Some json \<Rightarrow>
          (case parse json h of
             (h1, copy) \<Rightarrow>
               (case assignCoordsH fl fuel collapsedSet 0 copy (h1, 0) of
                  None \<Rightarrow> None
                | Some (layoutRoot, h2, leafY) \<Rightarrow>
                    (case collectH fuel layoutRoot (h2, [], []) of
                       None \<Rightarrow> None
                     | Some (h3, ns, es) \<Rightarrow>
                         (let maxX = fold (\<lambda>n m. case (m, o_x (h3 ! n)) of
                                              (Some m', Some x) \<Rightarrow>
                                                Some (max m' (x +
                                                  (case o_halfWidth (h3 ! n) of
                                                     None \<Rightarrow> 70
                                                   | Some hw \<Rightarrow> if hw = 0 then 70 else hw)))
                                            | _ \<Rightarrow> None) ns (Some 0);
                              maxY = fold (\<lambda>n m. case (m, o_y (h3 ! n)) of
                                              (Some m', Some y) \<Rightarrow> Some (max m' y)
                                            | _ \<Rightarrow> None) ns (Some 0)
                          in Some (h3, \<lparr>hnodes = ns, hedges = es,
                                        hwidth = map_option (\<lambda>m. max 800 (m + 200)) maxX,
                                        hheight = map_option (\<lambda>m. max 600 (m + 200)) maxY\<rparr>))))))"

subsection \<open>Notions the properties are stated with\<close>

text \<open>A visual leaf: a node that is collapsed or has no children.\<close>

definition visualLeaf :: "pnode \<Rightarrow> bool" where
  "visualLeaf n = (isCollapsed n \<or> \<not> hasChildren n)"

text \<open>
  The visible part of a processed tree in depth-first pre-order: the node, then, unless
  it is collapsed, the visible parts of its children from first to last.
\<close>

fun visibleNodes :: "pnode \<Rightarrow> pnode list" where
  "visibleNodes (PNode i l ty kids raw d c x y hw) =
     PNode i l ty kids raw d c x y hw # (if c then [] else concat (map visibleNodes kids))"

text \<open>The tree node a processed node was copied from: the layout fields forgotten.\<close>

fun sourceNode :: "pnode \<Rightarrow> tree" where
  "sourceNode (PNode i l ty kids raw d c x y hw) = Node i l ty (raw @ map sourceNode kids)"

text \<open>
  Every node of a tree in document order, each with the ids of its strict ancestors
  (outermost first), starting from the ancestors \<open>anc\<close> of the tree itself.
\<close>

fun withAncestors :: "string list \<Rightarrow> tree \<Rightarrow> (string list \<times> tree) list" where
  "withAncestors anc (Node i l ty ch) =
     (anc, Node i l ty ch) # concat (map (withAncestors (anc @ [i])) ch)"

text \<open>The nodes of a tree below no collapsed node, in document order.\<close>

fun visibleSub :: "string set \<Rightarrow> tree \<Rightarrow> tree list" where
  "visibleSub cs (Node i l ty ch) =
     Node i l ty ch # (if i \<in> cs then [] else concat (map (visibleSub cs) ch))"

text \<open>The same list with the nesting depth of each node, the root of the tree at \<open>d\<close>.\<close>

fun visibleAt :: "string set \<Rightarrow> nat \<Rightarrow> tree \<Rightarrow> (nat \<times> tree) list" where
  "visibleAt cs d (Node i l ty ch) =
     (d, Node i l ty ch) # (if i \<in> cs then [] else concat (map (visibleAt cs (d + 1)) ch))"

text \<open>
  The Sizing Function in the words of the specification: 7.5 units per character for
  kind \<open>code\<close>, 7 otherwise; the width is the larger of 140 and length times that plus 30.
\<close>

definition specWidth :: "string \<Rightarrow> string \<Rightarrow> rat" where
  "specWidth lbl kind =
     (if kind = ''code'' then max 140 (of_nat (length lbl) * (15 / 2) + 30)
      else max 140 (of_nat (length lbl) * 7 + 30))"

text \<open>The edge from a node to one of its children, anchored as the specification says.\<close>

definition edgeBetween :: "pnode \<Rightarrow> pnode \<Rightarrow> edge" where
  "edgeBetween n c =
     \<lparr>x1 = px n + specWidth (plabel n) (ptype n) / 2, y1 = py n,
      x2 = px c - specWidth (plabel c) (ptype c) / 2, y2 = py c\<rparr>"

text \<open>The edges leaving a node: none when it is collapsed, else one to each child.\<close>

definition outEdges :: "pnode \<Rightarrow> edge list" where
  "outEdges n = (if isCollapsed n then [] else map (edgeBetween n) (pchildren n))"

text \<open>The two results of \<open>assignCoords\<close> and of the \<open>map\<close> over children that matter below.\<close>

definition placed :: "(rat \<Rightarrow> rat) \<Rightarrow> string set \<Rightarrow> tree \<Rightarrow> nat \<Rightarrow> nat \<Rightarrow> pnode" where
  "placed fl cs t d k = fst (assignCoords fl cs t d k)"

definition placedList :: "(rat \<Rightarrow> rat) \<Rightarrow> string set \<Rightarrow> tree list \<Rightarrow> nat \<Rightarrow> nat \<Rightarrow> pnode list" where
  "placedList fl cs ts d k = fst (assignChildren fl cs ts d k)"

text \<open>A processed node with \<open>halfWidth\<close> written into its visible part, as \<open>collect\<close> leaves it.\<close>

fun final :: "pnode \<Rightarrow> pnode" where
  "final (PNode i l ty kids raw d c x y hw) =
     PNode i l ty (if c then kids else map final kids) raw d c x y
       (Some (specWidth l ty / 2))"

definition slotY :: "nat \<Rightarrow> rat" where
  "slotY j = of_nat j * 80 + 50"

text \<open>The nodes strictly below the root of a tree, in document order.\<close>

fun descendants :: "tree \<Rightarrow> tree list" where
  "descendants (Node i l ty ch) = concat (map (\<lambda>c. c # descendants c) ch)"

text \<open>Trees the closed examples below run on.\<close>

definition sampleTree :: tree where
  "sampleTree =
     Node ''r'' ''Root'' ''root''
       [Node ''a'' ''A'' ''child''
          [Node ''a1'' ''ls -la'' ''code'' [], Node ''a2'' ''A2'' ''child'' []],
        Node ''b'' ''B'' ''child'' [],
        Node ''c'' ''C'' ''child'' [Node ''c1'' ''C1'' ''child'' []]]"

definition label40 :: string where
  "label40 = ''0123456789012345678901234567890123456789''"

text \<open>A tree of fewer than \<open>n\<close> levels.\<close>

primrec fits :: "nat \<Rightarrow> tree \<Rightarrow> bool" where
  "fits 0 t = False"
| "fits (Suc n) t = (\<forall>c\<in>set (children t). fits n c)"

text \<open>
  Within \<open>n\<close> levels, every reference that is reached from \<open>a\<close> through \<open>children\<close>
  is an object of the store \<open>h\<close> and lies in the set \<open>A\<close>.
\<close>

primrec wfS :: "addr set \<Rightarrow> nat \<Rightarrow> heap \<Rightarrow> addr \<Rightarrow> bool" where
  "wfS A 0 h a = False"
| "wfS A (Suc n) h a =
     (a \<in> A \<and> a < length h \<and> (\<forall>c\<in>set (o_children (h ! a)). wfS A n h c))"

text \<open>An object as the caller has it, and a store with a tree of three nodes.\<close>

definition callerObj :: "string \<Rightarrow> string \<Rightarrow> string \<Rightarrow> addr list \<Rightarrow> obj" where
  "callerObj i l ty ch =
     \<lparr>o_id = i, o_label = l, o_type = ty, o_children = ch, o_depth = None,
      o_isCollapsed = None, o_x = None, o_y = None, o_halfWidth = None\<rparr>"

definition sampleHeap :: heap where
  "sampleHeap =
     [callerObj ''a'' ''A'' ''child'' [], callerObj ''b'' ''ls -la'' ''code'' [],
      callerObj ''r'' ''Root'' ''root'' [0, 1]]"

section \<open>Auxiliary facts\<close>

subsection \<open>Widths\<close>

lemma calculatedWidth_spec: "calculatedWidth lbl ty = specWidth lbl ty"
  by (simp add: calculatedWidth_def specWidth_def)

subsection \<open>\<open>collect\<close>\<close>

lemma final_sel [simp]:
  "pid (final p) = pid p" "plabel (final p) = plabel p" "ptype (final p) = ptype p"
  "praw (final p) = praw p" "depth (final p) = depth p" "isCollapsed (final p) = isCollapsed p"
  "px (final p) = px p" "py (final p) = py p"
  "halfWidth (final p) = Some (specWidth (plabel p) (ptype p) / 2)"
  "pchildren (final p) = (if isCollapsed p then pchildren p else map final (pchildren p))"
  by (cases p; simp)+

lemma collectChildren_maps:
  "collectChildren x hw y ps =
     (map (\<lambda>q. fst (collect q)) ps,
      concat (map (\<lambda>q. fst (snd (collect q))) ps),
      concat (map (\<lambda>q. \<lparr>x1 = x + hw, y1 = y,
                         x2 = px q - specWidth (plabel q) (ptype q) / 2, y2 = py q\<rparr>
                       # snd (snd (collect q))) ps))"
  by (induction ps) (auto simp: Let_def specWidth_def split: prod.splits)

lemma collect_final: "fst (collect p) = final p"
  by (induction p) (simp add: Let_def collectChildren_maps specWidth_def)

lemma visibleNodes_unfold:
  "visibleNodes p = p # (if isCollapsed p then [] else concat (map visibleNodes (pchildren p)))"
  by (cases p) simp

lemma visibleNodes_final: "visibleNodes (final p) = map final (visibleNodes p)"
  by (induction p) (auto simp: map_concat comp_def intro!: arg_cong[where f=concat])

lemma collect_nodes: "fst (snd (collect p)) = visibleNodes (final p)"
  by (induction p)
     (auto simp: Let_def collectChildren_maps collect_final specWidth_def comp_def
           intro!: arg_cong[where f=concat])

lemma collect_edges_unfold:
  "snd (snd (collect p)) =
     (if isCollapsed p then []
      else concat (map (\<lambda>q. edgeBetween p q # snd (snd (collect q))) (pchildren p)))"
  by (cases p) (simp add: Let_def collectChildren_maps specWidth_def edgeBetween_def)

lemma mset_concat_cons:
  "mset (concat (map (\<lambda>q. e q # f q) qs)) = mset (map e qs) + mset (concat (map f qs))"
  by (induction qs) simp_all

lemma mset_concat_cong:
  "(\<And>q. q \<in> set qs \<Longrightarrow> mset (f q) = mset (g q)) \<Longrightarrow>
   mset (concat (map f qs)) = mset (concat (map g qs))"
  by (induction qs) simp_all

lemma outEdges_PNode:
  "outEdges (PNode i l ty kids raw d c x y hw) =
     (if c then [] else map (edgeBetween (PNode i l ty kids raw d c x y hw)) kids)"
  by (simp add: outEdges_def)

lemma collect_edges: "mset (snd (snd (collect p))) = mset (concat (map outEdges (visibleNodes p)))"
proof (induction p)
  case (PNode i l ty kids raw d c x y hw)
  let ?p = "PNode i l ty kids raw d c x y hw"
  show ?case
  proof (cases c)
    case True
    then show ?thesis
      by (simp add: collect_edges_unfold outEdges_PNode del: collect.simps)
  next
    case False
    have "snd (snd (collect ?p)) =
          concat (map (\<lambda>q. edgeBetween ?p q # snd (snd (collect q))) kids)"
      using False by (subst collect_edges_unfold) simp
    then have "mset (snd (snd (collect ?p))) =
          mset (map (edgeBetween ?p) kids) + mset (concat (map (\<lambda>q. snd (snd (collect q))) kids))"
      by (simp only: mset_concat_cons)
    also have "mset (concat (map (\<lambda>q. snd (snd (collect q))) kids)) =
               mset (concat (map (\<lambda>q. concat (map outEdges (visibleNodes q))) kids))"
      by (rule mset_concat_cong) (rule PNode.IH)
    also have "concat (map (\<lambda>q. concat (map outEdges (visibleNodes q))) kids) =
               concat (map outEdges (concat (map visibleNodes kids)))"
      by (induction kids) simp_all
    finally show ?thesis
      using False by (simp add: outEdges_PNode del: collect.simps)
  qed
qed

subsection \<open>\<open>assignCoords\<close>\<close>

lemma fold_plus_sum: "fold (\<lambda>c acc. acc + g c) xs (a::nat) = a + sum_list (map g xs)"
  by (induction xs arbitrary: a) auto

lemma getLeafCount_Node:
  "getLeafCount cs (Node i l ty ch) =
     (if i \<in> cs \<or> ch = [] then 1 else sum_list (map (getLeafCount cs) ch))"
  by (simp add: fold_plus_sum)

lemma assign_count:
  "snd (assignCoords fl cs t d k) = k + getLeafCount cs t"
  "snd (assignChildren fl cs ts d k) = k + sum_list (map (getLeafCount cs) ts)"
  by (induction fl cs t d k and fl cs ts d k rule: assignCoords_assignChildren.induct)
     (auto simp: fold_plus_sum Let_def split: prod.splits)

lemma placedList_simps:
  "placedList fl cs [] d k = []"
  "placedList fl cs (c # rest) d k = placed fl cs c d k # placedList fl cs rest d (k + getLeafCount cs c)"
  using assign_count(1)[of fl cs c d k]
  by (auto simp: placed_def placedList_def split: prod.splits)

lemma placedList_length [simp]: "length (placedList fl cs ts d k) = length ts"
  by (induction ts arbitrary: k) (simp_all add: placedList_simps)

lemma placedList_Nil_iff [simp]: "placedList fl cs ts d k = [] \<longleftrightarrow> ts = []"
  using placedList_length[of fl cs ts d k] by (metis length_0_conv)

lemma placed_Node:
  "placed fl cs (Node i l ty ch) d k =
     (if i \<in> cs \<or> ch = []
      then PNode i l ty [] ch d (i \<in> cs) (of_nat d * 300 + 100) (slotY k) None
      else PNode i l ty (placedList fl cs ch (d + 1) k) [] d False (of_nat d * 300 + 100)
             (fl (fl (py (hd (placedList fl cs ch (d + 1) k)) +
                      py (last (placedList fl cs ch (d + 1) k))) / 2))
             None)"
  by (auto simp: placed_def placedList_def Let_def slotY_def split: prod.splits)

lemma visibleNodes_placed:
  "visibleNodes (placed fl cs (Node i l ty ch) d k) =
     placed fl cs (Node i l ty ch) d k #
       (if i \<in> cs \<or> ch = [] then [] else concat (map visibleNodes (placedList fl cs ch (d + 1) k)))"
  by (simp add: placed_Node)

lemma placed_sel [simp]:
  "pid (placed fl cs t d k) = nid t" "plabel (placed fl cs t d k) = label t"
  "ptype (placed fl cs t d k) = ntype t" "depth (placed fl cs t d k) = d"
  "isCollapsed (placed fl cs t d k) = (nid t \<in> cs)"
  "px (placed fl cs t d k) = of_nat d * 300 + 100"
  "halfWidth (placed fl cs t d k) = None"
  by (cases t; simp add: placed_Node)+

lemma placedList_mem:
  "q \<in> set (placedList fl cs ts d k) \<Longrightarrow> \<exists>c k'. c \<in> set ts \<and> q = placed fl cs c d k'"
proof (induction ts arbitrary: k)
  case Nil
  then show ?case by (simp add: placedList_simps)
next
  case (Cons c rest)
  from Cons.prems
  have "q = placed fl cs c d k \<or> q \<in> set (placedList fl cs rest d (k + getLeafCount cs c))"
    by (simp add: placedList_simps)
  then show ?case
  proof
    assume "q = placed fl cs c d k"
    then show ?thesis by auto
  next
    assume "q \<in> set (placedList fl cs rest d (k + getLeafCount cs c))"
    from Cons.IH[OF this] show ?thesis by auto
  qed
qed

lemma visibleNodes_placedList_mem:
  assumes "\<And>c d k n. c \<in> set ts \<Longrightarrow> n \<in> set (visibleNodes (placed fl cs c d k)) \<Longrightarrow> P n"
    and "n \<in> set (concat (map visibleNodes (placedList fl cs ts d k)))"
  shows "P n"
proof -
  from assms(2) obtain q where q: "q \<in> set (placedList fl cs ts d k)" "n \<in> set (visibleNodes q)"
    by auto
  from placedList_mem[OF q(1)] obtain c k' where "c \<in> set ts" "q = placed fl cs c d k'"
    by blast
  with q(2) assms(1) show ?thesis by blast
qed

text \<open>Every visible node of a laid-out tree is itself the layout of some subtree.\<close>

lemma visibleNodes_placed_mem:
  "n \<in> set (visibleNodes (placed fl cs t d k)) \<Longrightarrow> \<exists>t' d' k'. n = placed fl cs t' d' k'"
proof (induction t arbitrary: d k n)
  case (Node i l ty ch)
  show ?case
  proof (cases "n = placed fl cs (Node i l ty ch) d k")
    case True
    then show ?thesis by blast
  next
    case False
    with Node.prems have "i \<notin> cs" "ch \<noteq> []"
      and "n \<in> set (concat (map visibleNodes (placedList fl cs ch (d + 1) k)))"
      by (auto simp: visibleNodes_placed split: if_splits)
    then show ?thesis
      by (rule_tac visibleNodes_placedList_mem
            [where ts = ch and fl = fl and cs = cs and d = "d + 1" and k = k and n = n])
         (use Node.IH in blast)+
  qed
qed

lemma placed_visualLeaf:
  "visualLeaf (placed fl cs t d k) \<longleftrightarrow> nid t \<in> cs \<or> children t = []"
  by (cases t) (auto simp: placed_Node visualLeaf_def hasChildren_def)

lemma placed_internal:
  assumes "\<not> visualLeaf (placed fl cs t d k)"
  shows "pchildren (placed fl cs t d k) \<noteq> []"
    and "py (placed fl cs t d k) =
           fl (fl (py (hd (pchildren (placed fl cs t d k))) +
                   py (last (pchildren (placed fl cs t d k)))) / 2)"
  using assms by (cases t; auto simp: placed_Node visualLeaf_def hasChildren_def)+

lemma placed_child_depth:
  "c \<in> set (pchildren (placed fl cs t d k)) \<Longrightarrow> depth c = d + 1"
  by (cases t) (auto simp: placed_Node dest!: placedList_mem split: if_splits)

lemma placed_collapsed_children:
  "isCollapsed (placed fl cs t d k) \<Longrightarrow> pchildren (placed fl cs t d k) = []"
  by (cases t) (auto simp: placed_Node split: if_splits)

lemma leaf_slots_list:
  assumes "\<And>c d k. c \<in> set ts \<Longrightarrow>
     map py (filter visualLeaf (visibleNodes (placed fl cs c d k))) =
       map slotY [k..<k + getLeafCount cs c]"
  shows "map py (filter visualLeaf (concat (map visibleNodes (placedList fl cs ts d k)))) =
     map slotY [k..<k + sum_list (map (getLeafCount cs) ts)]"
  using assms
proof (induction ts arbitrary: k)
  case Nil
  then show ?case by (simp add: placedList_simps)
next
  case (Cons c rest)
  have "[k..<k + (getLeafCount cs c + sum_list (map (getLeafCount cs) rest))] =
        [k..<k + getLeafCount cs c] @
        [k + getLeafCount cs c..<k + getLeafCount cs c + sum_list (map (getLeafCount cs) rest)]"
    by (metis add.assoc le_add1 upt_add_eq_append)
  with Cons show ?case by (simp add: placedList_simps del: getLeafCount.simps)
qed

text \<open>
  The visual leaves of a laid-out tree, in list order, take the slots from the counter
  on, one each.
\<close>

lemma leaf_slots:
  "map py (filter visualLeaf (visibleNodes (placed fl cs t d k))) =
     map slotY [k..<k + getLeafCount cs t]"
proof (induction t arbitrary: d k)
  case (Node i l ty ch)
  show ?case
  proof (cases "i \<in> cs \<or> ch = []")
    case True
    then show ?thesis
      by (auto simp: placed_Node visualLeaf_def hasChildren_def)
  next
    case False
    then have "\<not> visualLeaf (placed fl cs (Node i l ty ch) d k)"
      by (simp add: placed_Node visualLeaf_def hasChildren_def)
    with False show ?thesis
      using leaf_slots_list[where ts = ch and fl = fl and cs = cs and d = "d + 1" and k = k] Node.IH
      by (simp add: visibleNodes_placed getLeafCount_Node del: getLeafCount.simps)
  qed
qed

subsection \<open>Source nodes and visibility\<close>

lemma sourceNode_placedList:
  "(\<And>c d k. c \<in> set ts \<Longrightarrow> sourceNode (placed fl cs c d k) = c) \<Longrightarrow>
   map sourceNode (placedList fl cs ts d k) = ts"
  by (induction ts arbitrary: k) (auto simp: placedList_simps)

lemma sourceNode_placed: "sourceNode (placed fl cs t d k) = t"
  by (induction t arbitrary: d k) (auto simp: placed_Node sourceNode_placedList)

lemma sourceNode_final: "sourceNode (final p) = sourceNode p"
  by (induction p) auto

lemma visible_placedList:
  "(\<And>c d k. c \<in> set ts \<Longrightarrow>
      map sourceNode (visibleNodes (placed fl cs c d k)) = visibleSub cs c) \<Longrightarrow>
   map sourceNode (concat (map visibleNodes (placedList fl cs ts d k))) =
     concat (map (visibleSub cs) ts)"
  by (induction ts arbitrary: k) (auto simp: placedList_simps)

lemma visible_placed: "map sourceNode (visibleNodes (placed fl cs t d k)) = visibleSub cs t"
proof (induction t arbitrary: d k)
  case (Node i l ty ch)
  have "sourceNode (placed fl cs (Node i l ty ch) d k) = Node i l ty ch"
    by (rule sourceNode_placed)
  then show ?case
    using visible_placedList[where ts = ch and fl = fl and cs = cs and d = "d + 1" and k = k] Node.IH
    by (auto simp: visibleNodes_placed)
qed

lemma withAncestors_anc:
  "(anc', n) \<in> set (withAncestors anc t) \<Longrightarrow> set anc \<subseteq> set anc'"
  by (induction t arbitrary: anc) fastforce

lemma filter_withAncestors:
  "\<forall>a\<in>set anc. a \<notin> cs \<Longrightarrow>
   map snd (filter (\<lambda>(anc, n). \<forall>a\<in>set anc. a \<notin> cs) (withAncestors anc t)) = visibleSub cs t"
proof (induction t arbitrary: anc)
  case (Node i l ty ch)
  show ?case
  proof (cases "i \<in> cs")
    case True
    have "filter (\<lambda>(anc, n). \<forall>a\<in>set anc. a \<notin> cs)
            (concat (map (withAncestors (anc @ [i])) ch)) = []"
      unfolding filter_empty_conv
    proof
      fix x assume x: "x \<in> set (concat (map (withAncestors (anc @ [i])) ch))"
      then obtain c where "c \<in> set ch" "x \<in> set (withAncestors (anc @ [i]) c)" by auto
      then have "i \<in> set (fst x)"
        using withAncestors_anc[of "fst x" "snd x" "anc @ [i]" c] by auto
      with True show "\<not> (case x of (anc, n) \<Rightarrow> \<forall>a\<in>set anc. a \<notin> cs)"
        by (auto split: prod.splits)
    qed
    with True Node.prems show ?thesis by simp
  next
    case False
    with Node.prems have ok: "\<forall>a\<in>set (anc @ [i]). a \<notin> cs" by simp
    have "map snd (filter (\<lambda>(anc, n). \<forall>a\<in>set anc. a \<notin> cs)
           (concat (map (withAncestors (anc @ [i])) ch))) =
          concat (map (visibleSub cs) ch)"
      using Node.IH[OF _ ok] by (simp add: map_concat filter_concat comp_def cong: map_cong)
    with False Node.prems show ?thesis by simp
  qed
qed

subsection \<open>\<open>calculateLayout\<close>\<close>

lemma calculateLayout_Some:
  "calculateLayout fl (Present t) cs =
     Inr \<lparr>nodes = map final (visibleNodes (placed fl cs t 0 0)),
          edges = snd (snd (collect (placed fl cs t 0 0))),
          width = max 800 (fold (\<lambda>n m. max m (px n +
                     (case halfWidth n of None \<Rightarrow> 70 | Some h \<Rightarrow> if h = 0 then 70 else h)))
                   (map final (visibleNodes (placed fl cs t 0 0))) 0 + 200),
          height = max 600 (fold (\<lambda>n m. max m (py n))
                   (map final (visibleNodes (placed fl cs t 0 0))) 0 + 200)\<rparr>"
proof -
  obtain p0 k0 where a: "assignCoords fl cs t 0 0 = (p0, k0)"
    by (cases "assignCoords fl cs t 0 0")
  obtain p ns es where c: "collect p0 = (p, ns, es)"
    by (cases "collect p0")
  have "ns = map final (visibleNodes p0)"
    using collect_nodes[of p0] c by (simp add: visibleNodes_final)
  with a c show ?thesis
    by (simp add: calculateLayout_def placed_def Let_def)
qed

lemma outEdges_final: "outEdges (final n) = outEdges n"
  by (simp add: outEdges_def edgeBetween_def)

lemma nid_sourceNode [simp]: "nid (sourceNode p) = pid p"
  by (cases p) simp

text \<open>The layout of \<open>sampleTree\<close> with node \<open>c\<close> collapsed, computed step by step.\<close>

lemma sample_layout:
  "\<exists>L. calculateLayout id (Present sampleTree) {''c''} = Inr L \<and>
     map (\<lambda>n. (pid n, depth n, isCollapsed n, px n, py n, halfWidth n)) (nodes L) =
       [(''r'', 0, False, 100, 190, Some 70), (''a'', 1, False, 400, 90, Some 70),
        (''a1'', 2, False, 700, 50, Some 70), (''a2'', 2, False, 700, 130, Some 70),
        (''b'', 1, False, 400, 210, Some 70), (''c'', 1, True, 400, 290, Some 70)] \<and>
     edges L =
       [\<lparr>x1 = 170, y1 = 190, x2 = 330, y2 = 90\<rparr>, \<lparr>x1 = 470, y1 = 90, x2 = 630, y2 = 50\<rparr>,
        \<lparr>x1 = 470, y1 = 90, x2 = 630, y2 = 130\<rparr>, \<lparr>x1 = 170, y1 = 190, x2 = 330, y2 = 210\<rparr>,
        \<lparr>x1 = 170, y1 = 190, x2 = 330, y2 = 290\<rparr>] \<and>
     width L = 970 \<and> height L = 600"
  by (simp add: calculateLayout_def sampleTree_def Let_def)

lemma layout_parts:
  obtains L where "calculateLayout fl (Present t) cs = Inr L"
    and "nodes L = map final (visibleNodes (placed fl cs t 0 0))"
    and "edges L = snd (snd (collect (placed fl cs t 0 0)))"
    and "width L = max 800 (fold (\<lambda>n m. max m (px n +
                     (case halfWidth n of None \<Rightarrow> 70 | Some h \<Rightarrow> if h = 0 then 70 else h)))
                   (map final (visibleNodes (placed fl cs t 0 0))) 0 + 200)"
    and "height L = max 600 (fold (\<lambda>n m. max m (py n))
                   (map final (visibleNodes (placed fl cs t 0 0))) 0 + 200)"
  by (rule that[of "projr (calculateLayout fl (Present t) cs)"])
     (simp_all add: calculateLayout_Some)

lemma concat_occurrence:
  "concat xss = as @ n # bs \<Longrightarrow>
   \<exists>xss1 u v xss2. xss = xss1 @ (u @ n # v) # xss2 \<and> as = concat xss1 @ u \<and> bs = v @ concat xss2"
proof (induction xss arbitrary: as)
  case Nil
  then show ?case by simp
next
  case (Cons xs xss)
  then have "xs @ concat xss = as @ n # bs" by simp
  then consider us where "xs = as @ us" "us @ concat xss = n # bs"
    | us where "xs @ us = as" "concat xss = us @ n # bs"
    by (auto simp: append_eq_append_conv2)
  then show ?case
  proof cases
    case 1
    show ?thesis
    proof (cases us)
      case Nil
      with 1 have "concat xss = [] @ n # bs" "xs = as" by simp_all
      from Cons.IH[OF this(1)] obtain xss1 u v xss2 where
        "xss = xss1 @ (u @ n # v) # xss2" "[] = concat xss1 @ u" "bs = v @ concat xss2"
        by blast
      with \<open>xs = as\<close> have "xs # xss = (xs # xss1) @ (u @ n # v) # xss2 \<and>
          as = concat (xs # xss1) @ u \<and> bs = v @ concat xss2"
        by simp
      then show ?thesis by blast
    next
      case (Cons a v)
      with 1 have "xs # xss = [] @ (as @ n # v) # xss \<and> as = concat [] @ as \<and> bs = v @ concat xss"
        by simp
      then show ?thesis by blast
    qed
  next
    case 2
    from Cons.IH[OF 2(2)] obtain xss1 u v xss2 where
      "xss = xss1 @ (u @ n # v) # xss2" "us = concat xss1 @ u" "bs = v @ concat xss2"
      by blast
    with 2(1) have "xs # xss = (xs # xss1) @ (u @ n # v) # xss2 \<and>
        as = concat (xs # xss1) @ u \<and> bs = v @ concat xss2"
      by auto
    then show ?thesis by blast
  qed
qed

lemma visibleNodes_occurrence:
  assumes "concat (map visibleNodes kids) = as @ n # bs"
  obtains kid u v pre post where "kid \<in> set kids" "visibleNodes kid = u @ n # v"
    "as = pre @ u" "bs = v @ post"
proof -
  from concat_occurrence[OF assms] obtain xss1 u v xss2 where
    x: "map visibleNodes kids = xss1 @ (u @ n # v) # xss2" "as = concat xss1 @ u"
       "bs = v @ concat xss2"
    by blast
  from x(1) have "u @ n # v \<in> set (map visibleNodes kids)" by simp
  then obtain kid where "kid \<in> set kids" "visibleNodes kid = u @ n # v" by auto
  with x(2,3) that show thesis by blast
qed

lemma visibleNodes_prefix:
  "visibleNodes r = as @ n # bs \<Longrightarrow> prefix (visibleNodes n) (n # bs)"
proof (induction r arbitrary: as n bs)
  case (PNode i l ty kids raw d c x y hw)
  let ?r = "PNode i l ty kids raw d c x y hw"
  show ?case
  proof (cases as)
    case Nil
    with PNode.prems have e: "visibleNodes ?r = n # bs" by (simp only: append_Nil)
    have "hd (visibleNodes ?r) = ?r" by simp
    with e have "n = ?r" by (simp only: list.sel(1))
    with e have "visibleNodes n = n # bs" by (simp only:)
    then show ?thesis by simp
  next
    case (Cons a as')
    with PNode.prems have "\<not> c" and occ: "concat (map visibleNodes kids) = as' @ n # bs"
      by (auto split: if_splits)
    obtain kid u v pre post where
      k: "kid \<in> set kids" "visibleNodes kid = u @ n # v" "as' = pre @ u" "bs = v @ post"
      by (rule visibleNodes_occurrence[OF occ])
    from PNode.IH[OF k(1,2)] have "prefix (visibleNodes n) ((n # v) @ post)"
      by (rule prefix_prefix)
    with k(4) show ?thesis
      by simp
  qed
qed

lemma visibleNodes_parent:
  "visibleNodes r = as @ n # bs \<Longrightarrow> as \<noteq> [] \<Longrightarrow>
   \<exists>as1 m as2. as = as1 @ m # as2 \<and> \<not> isCollapsed m \<and> n \<in> set (pchildren m)"
proof (induction r arbitrary: as n bs)
  case (PNode i l ty kids raw d c x y hw)
  let ?r = "PNode i l ty kids raw d c x y hw"
  from PNode.prems obtain as' where as: "as = ?r # as'"
    by (cases as) auto
  with PNode.prems have nc: "\<not> c" and occ: "concat (map visibleNodes kids) = as' @ n # bs"
    by (auto split: if_splits)
  obtain kid u v pre post where
    k: "kid \<in> set kids" "visibleNodes kid = u @ n # v" "as' = pre @ u" "bs = v @ post"
    by (rule visibleNodes_occurrence[OF occ])
  show ?case
  proof (cases u)
    case Nil
    with k(2) have "n = kid"
      by (subst (asm) visibleNodes_unfold) simp
    with k(1) nc as have "as = [] @ ?r # as' \<and> \<not> isCollapsed ?r \<and> n \<in> set (pchildren ?r)"
      by simp
    then show ?thesis by blast
  next
    case (Cons a u')
    then have "u \<noteq> []" by simp
    from PNode.IH[OF k(1,2) this] obtain as1 m as2 where
      "u = as1 @ m # as2" "\<not> isCollapsed m" "n \<in> set (pchildren m)"
      by blast
    with as k(3) have "as = (?r # pre @ as1) @ m # as2 \<and> \<not> isCollapsed m \<and> n \<in> set (pchildren m)"
      by simp
    then show ?thesis by blast
  qed
qed

lemma fold_collapse:
  assumes "\<And>c acc. c \<in> set ch \<Longrightarrow> collapseRecursively rid c acc = acc \<union> S c"
  shows "fold (collapseRecursively rid) ch acc = acc \<union> (\<Union>c\<in>set ch. S c)"
  using assms by (induction ch arbitrary: acc) auto

lemma inner_ids_Node:
  "ch \<noteq> [] \<Longrightarrow>
   nid ` {n \<in> set (Node i l ty ch # descendants (Node i l ty ch)).
           children n \<noteq> [] \<and> nid n \<noteq> rid} =
   (if i \<noteq> rid then {i} else {}) \<union>
   (\<Union>c\<in>set ch. nid ` {n \<in> set (c # descendants c). children n \<noteq> [] \<and> nid n \<noteq> rid})"
  by force

lemma collapseRecursively_set:
  "collapseRecursively rid t acc =
     acc \<union> nid ` {n \<in> set (t # descendants t). children n \<noteq> [] \<and> nid n \<noteq> rid}"
proof (induction t arbitrary: acc)
  case (Node i l ty ch)
  let ?S = "\<lambda>c. nid ` {n \<in> set (c # descendants c). children n \<noteq> [] \<and> nid n \<noteq> rid}"
  show ?case
  proof (cases "ch = []")
    case True
    then show ?thesis by auto
  next
    case False
    have "fold (collapseRecursively rid) ch acc' = acc' \<union> (\<Union>c\<in>set ch. ?S c)" for acc'
      by (rule fold_collapse) (rule Node.IH)
    with False have "collapseRecursively rid (Node i l ty ch) acc =
        (if i \<noteq> rid then insert i acc else acc) \<union> (\<Union>c\<in>set ch. ?S c)"
      by simp
    also have "\<dots> = acc \<union> ((if i \<noteq> rid then {i} else {}) \<union> (\<Union>c\<in>set ch. ?S c))"
      by auto
    also have "\<dots> = acc \<union> ?S (Node i l ty ch)"
      by (simp only: inner_ids_Node[OF False])
    finally show ?thesis .
  qed
qed

lemma seed_set:
  "seed (Present t) = nid ` {n \<in> set (descendants t). children n \<noteq> [] \<and> nid n \<noteq> nid t}"
  by (auto simp: seed_def collapseRecursively_set)

lemma child_descendant: "c \<in> set (children t) \<Longrightarrow> c \<in> set (descendants t)"
  by (cases t) auto

lemma visibleSub_leaf: "nid c \<in> cs \<or> children c = [] \<Longrightarrow> visibleSub cs c = [c]"
  by (cases c) auto

lemma visibleNodes_leaf:
  "nid c \<in> cs \<or> children c = [] \<Longrightarrow> visibleNodes (placed fl cs c d k) = [placed fl cs c d k]"
  by (cases c) (auto simp: placed_Node)

subsection \<open>The layout and the tree\<close>

lemma visibleAt_placedList:
  "(\<And>c d k. c \<in> set ts \<Longrightarrow>
      map (\<lambda>n. (depth n, sourceNode n)) (visibleNodes (placed fl cs c d k)) = visibleAt cs d c) \<Longrightarrow>
   map (\<lambda>n. (depth n, sourceNode n)) (concat (map visibleNodes (placedList fl cs ts d k))) =
     concat (map (visibleAt cs d) ts)"
  by (induction ts arbitrary: k) (auto simp: placedList_simps)

lemma visibleAt_placed:
  "map (\<lambda>n. (depth n, sourceNode n)) (visibleNodes (placed fl cs t d k)) = visibleAt cs d t"
proof (induction t arbitrary: d k)
  case (Node i l ty ch)
  have "sourceNode (placed fl cs (Node i l ty ch) d k) = Node i l ty ch"
    by (rule sourceNode_placed)
  then show ?case
    using visibleAt_placedList[where ts = ch and fl = fl and cs = cs and d = "d + 1" and k = k]
      Node.IH
    by (auto simp: visibleNodes_placed)
qed

lemma filter_withAncestors_depth:
  "\<forall>a\<in>set anc. a \<notin> cs \<Longrightarrow>
   map (\<lambda>(anc, n). (length anc, n))
     (filter (\<lambda>(anc, n). \<forall>a\<in>set anc. a \<notin> cs) (withAncestors anc t)) =
   visibleAt cs (length anc) t"
proof (induction t arbitrary: anc)
  case (Node i l ty ch)
  show ?case
  proof (cases "i \<in> cs")
    case True
    have "filter (\<lambda>(anc, n). \<forall>a\<in>set anc. a \<notin> cs)
            (concat (map (withAncestors (anc @ [i])) ch)) = []"
      unfolding filter_empty_conv
    proof
      fix x assume x: "x \<in> set (concat (map (withAncestors (anc @ [i])) ch))"
      then obtain c where "c \<in> set ch" "x \<in> set (withAncestors (anc @ [i]) c)" by auto
      then have "i \<in> set (fst x)"
        using withAncestors_anc[of "fst x" "snd x" "anc @ [i]" c] by auto
      with True show "\<not> (case x of (anc, n) \<Rightarrow> \<forall>a\<in>set anc. a \<notin> cs)"
        by (auto split: prod.splits)
    qed
    with True Node.prems show ?thesis by simp
  next
    case False
    with Node.prems have ok: "\<forall>a\<in>set (anc @ [i]). a \<notin> cs" by simp
    have "map (\<lambda>(anc, n). (length anc, n)) (filter (\<lambda>(anc, n). \<forall>a\<in>set anc. a \<notin> cs)
           (concat (map (withAncestors (anc @ [i])) ch))) =
          concat (map (visibleAt cs (length anc + 1)) ch)"
      using Node.IH[OF _ ok] by (simp add: map_concat filter_concat comp_def cong: map_cong)
    with False Node.prems show ?thesis by simp
  qed
qed


lemma visibleNodes_self: "p \<in> set (visibleNodes p)"
  by (subst visibleNodes_unfold) simp

lemma visibleNodes_child_mem:
  assumes "n \<in> set (visibleNodes r)" "\<not> isCollapsed n" "c \<in> set (pchildren n)"
  shows "c \<in> set (visibleNodes r)"
proof -
  from assms(1) obtain as bs where r: "visibleNodes r = as @ n # bs"
    by (meson split_list)
  then have "prefix (visibleNodes n) (n # bs)"
    by (rule visibleNodes_prefix)
  then have "set (visibleNodes n) \<subseteq> set (n # bs)"
    by (rule set_mono_prefix)
  moreover have "c \<in> set (visibleNodes n)"
    using assms(2,3) visibleNodes_self[of c] by (subst visibleNodes_unfold) auto
  ultimately show ?thesis
    using r by auto
qed

lemma sourceNode_placedList_eq: "map sourceNode (placedList fl cs ts d k) = ts"
  by (rule sourceNode_placedList) (rule sourceNode_placed)

text \<open>What every node of the list that \<open>collect\<close> fills looks like.\<close>

lemma layout_node:
  assumes "n \<in> set (map final (visibleNodes (placed fl cs t 0 0)))"
  shows "isCollapsed n = (pid n \<in> cs)"
    and "px n = of_nat (depth n) * 300 + 100"
    and "halfWidth n = Some (specWidth (plabel n) (ptype n) / 2)"
    and "hasChildren n = (children (sourceNode n) \<noteq> [])"
    and "visualLeaf n = (pid n \<in> cs \<or> children (sourceNode n) = [])"
    and "pid n \<in> cs \<or> children (sourceNode n) = [] \<Longrightarrow> pchildren n = []"
    and "\<not> isCollapsed n \<Longrightarrow> map sourceNode (pchildren n) = children (sourceNode n)"
    and "\<not> isCollapsed n \<Longrightarrow>
           set (pchildren n) \<subseteq> set (map final (visibleNodes (placed fl cs t 0 0)))"
    and "c \<in> set (pchildren n) \<Longrightarrow> depth c = depth n + 1"
    and "\<not> (pid n \<in> cs \<or> children (sourceNode n) = []) \<Longrightarrow>
           py n = fl (fl (py (hd (pchildren n)) + py (last (pchildren n))) / 2)"
    and "map sourceNode (visibleNodes n) = visibleSub cs (sourceNode n)"
proof -
  from assms obtain q where q: "q \<in> set (visibleNodes (placed fl cs t 0 0))" "n = final q"
    by auto
  from visibleNodes_placed_mem[OF q(1)] obtain t' d' k' where q': "q = placed fl cs t' d' k'"
    by blast
  obtain i l ty ch where t': "t' = Node i l ty ch" by (cases t')
  let ?kids = "placedList fl cs ch (d' + 1) k'"
  have n: "n = final (placed fl cs t' d' k')" using q(2) q' by simp
  have src: "sourceNode n = t'"
    by (simp add: n sourceNode_final sourceNode_placed)
  show "isCollapsed n = (pid n \<in> cs)" "px n = of_nat (depth n) * 300 + 100"
    "halfWidth n = Some (specWidth (plabel n) (ptype n) / 2)"
    by (simp_all add: n)
  show hc: "hasChildren n = (children (sourceNode n) \<noteq> [])"
    unfolding src by (auto simp: n t' hasChildren_def placed_Node)
  show "visualLeaf n = (pid n \<in> cs \<or> children (sourceNode n) = [])"
    unfolding visualLeaf_def hc by (simp add: n)
  have pidn: "pid n = i" by (simp add: n t')
  show "pchildren n = []" if "pid n \<in> cs \<or> children (sourceNode n) = []"
    using that unfolding src pidn by (auto simp: n t' placed_Node)
  show "map sourceNode (pchildren n) = children (sourceNode n)" if "\<not> isCollapsed n"
  proof -
    from that have "i \<notin> cs" by (simp add: n t')
    then have "pchildren n = map final (if ch = [] then [] else ?kids)"
      by (simp add: n t' placed_Node)
    moreover have "map sourceNode (map final (placedList fl cs ch (d' + 1) k')) = ch"
      using sourceNode_placedList_eq[of fl cs ch "d' + 1" k']
      by (simp add: comp_def sourceNode_final)
    ultimately show ?thesis
      unfolding src by (simp add: t')
  qed
  show "set (pchildren n) \<subseteq> set (map final (visibleNodes (placed fl cs t 0 0)))"
    if "\<not> isCollapsed n"
    using that assms visibleNodes_child_mem[of n "final (placed fl cs t 0 0)"]
    by (auto simp: visibleNodes_final)
  show "depth c = depth n + 1" if "c \<in> set (pchildren n)"
    using that placed_child_depth[of _ fl cs t' d' k']
    by (auto simp: n split: if_splits)
  show "py n = fl (fl (py (hd (pchildren n)) + py (last (pchildren n))) / 2)"
    if "\<not> (pid n \<in> cs \<or> children (sourceNode n) = [])"
  proof -
    from that have nl: "\<not> visualLeaf (placed fl cs t' d' k')"
      unfolding src by (simp add: n placed_visualLeaf)
    then have "\<not> isCollapsed (placed fl cs t' d' k')" by (simp add: visualLeaf_def)
    with placed_internal[OF nl] show ?thesis
      by (simp add: n hd_map last_map del: placed_sel)
  qed
  show "map sourceNode (visibleNodes n) = visibleSub cs (sourceNode n)"
    unfolding src by (simp add: n visibleNodes_final comp_def sourceNode_final visible_placed)
qed

lemma layout_nodes_tree:
  "map (\<lambda>n. (depth n, sourceNode n)) (map final (visibleNodes (placed fl cs t 0 0))) =
   map (\<lambda>(anc, n). (length anc, n))
     (filter (\<lambda>(anc, n). \<forall>a\<in>set anc. a \<notin> cs) (withAncestors [] t))"
proof -
  have "map (\<lambda>n. (depth n, sourceNode n)) (map final (visibleNodes (placed fl cs t 0 0))) =
        map (\<lambda>n. (depth n, sourceNode n)) (visibleNodes (placed fl cs t 0 0))"
    by (simp add: comp_def sourceNode_final)
  also have "\<dots> = visibleAt cs 0 t"
    by (rule visibleAt_placed)
  also have "\<dots> = map (\<lambda>(anc, n). (length anc, n))
     (filter (\<lambda>(anc, n). \<forall>a\<in>set anc. a \<notin> cs) (withAncestors [] t))"
    using filter_withAncestors_depth[of "[]" cs t] by simp
  finally show ?thesis .
qed

lemma layout_nodes_source:
  "map sourceNode (map final (visibleNodes (placed fl cs t 0 0))) =
   map snd (filter (\<lambda>(anc, n). \<forall>a\<in>set anc. a \<notin> cs) (withAncestors [] t))"
  by (simp add: comp_def sourceNode_final visible_placed filter_withAncestors)

subsection \<open>The store\<close>

lemma prefix_nth: "prefix h h' \<Longrightarrow> a < length h \<Longrightarrow> h' ! a = h ! a"
  by (auto simp: prefix_def nth_append)

lemma prefix_update: "prefix h h' \<Longrightarrow> length h \<le> p \<Longrightarrow> prefix h (h'[p := v])"
  by (auto simp: prefix_def list_update_append)

lemma those_map_Some [simp]: "those (map Some xs) = Some xs"
  by (induction xs) simp_all

lemma those_Some_nth:
  "those xs = Some ys \<Longrightarrow> length ys = length xs \<and> (\<forall>j<length xs. xs ! j = Some (ys ! j))"
proof (induction xs arbitrary: ys)
  case Nil
  then show ?case by simp
next
  case (Cons a xs)
  from Cons.prems obtain y zs where a: "a = Some y" "those xs = Some zs" "ys = y # zs"
    by (cases a; cases "those xs") auto
  from Cons.IH[OF a(2)] a show ?case
    by (auto simp: nth_Cons split: nat.splits)
qed

lemma those_Some_map: "those xs = Some ys \<Longrightarrow> xs = map Some ys"
  using those_Some_nth[of xs ys] by (auto intro: nth_equalityI)

subsubsection \<open>Reachable objects\<close>

lemma wfS_mono: "wfS A n h a \<Longrightarrow> A \<subseteq> B \<Longrightarrow> wfS B n h a"
  by (induction n arbitrary: a) auto

lemma wfS_prefix: "wfS A n h a \<Longrightarrow> prefix h h' \<Longrightarrow> wfS A n h' a"
proof (induction n arbitrary: a)
  case 0
  then show ?case by simp
next
  case (Suc n)
  from Suc.prems have a: "a \<in> A" "a < length h"
    and c: "\<forall>c\<in>set (o_children (h ! a)). wfS A n h c" by simp_all
  from Suc.prems(2) a(2) have "h' ! a = h ! a" by (rule prefix_nth)
  moreover from Suc.prems(2) have "length h \<le> length h'" by (rule prefix_length_le)
  ultimately show ?case
    using a c Suc.IH Suc.prems(2) by auto
qed

lemma wfS_bound: "wfS A n h a \<Longrightarrow> wfS (A \<inter> {..<length h}) n h a"
  by (induction n arbitrary: a) auto

lemma wfS_update: "wfS A n h a \<Longrightarrow> p \<notin> A \<Longrightarrow> wfS A n (h[p := v]) a"
proof (induction n arbitrary: a)
  case 0
  then show ?case by simp
next
  case (Suc n)
  from Suc.prems have "a \<noteq> p" by auto
  then have "h[p := v] ! a = h ! a" by simp
  with Suc show ?case by auto
qed

lemma wfS_shape:
  "map o_children h' = map o_children h \<Longrightarrow> wfS A n h' a = wfS A n h a"
proof (induction n arbitrary: a)
  case 0
  then show ?case by simp
next
  case (Suc n)
  from Suc.prems have len: "length h' = length h"
    by (metis length_map)
  have "o_children (h' ! a) = o_children (h ! a)" if "a < length h"
    using that Suc.prems len by (metis nth_map)
  with Suc.IH[OF Suc.prems] len show ?case
    by auto
qed

lemma wfS_less: "wfS A n h a \<Longrightarrow> a \<in> A \<and> a < length h"
  by (cases n) simp_all

subsubsection \<open>\<open>stringify\<close>\<close>

lemma stringify_prefix:
  "stringify n h a = Some t \<Longrightarrow> prefix h h' \<Longrightarrow> stringify n h' a = Some t"
proof (induction n arbitrary: a t)
  case 0
  then show ?case by simp
next
  case (Suc n)
  from Suc.prems(1) have a: "a < length h"
    by (simp split: if_splits)
  with Suc.prems(2) have eq: "h' ! a = h ! a" and len: "a < length h'"
    using prefix_nth prefix_length_le by fastforce+
  from Suc.prems(1) a obtain ch where
    ch: "those (map (stringify n h) (o_children (h ! a))) = Some ch"
    and t: "t = Node (o_id (h ! a)) (o_label (h ! a)) (o_type (h ! a)) ch"
    by auto
  from those_Some_map[OF ch] have m: "map (stringify n h) (o_children (h ! a)) = map Some ch" .
  have "map (stringify n h') (o_children (h ! a)) = map Some ch"
  proof (rule nth_equalityI)
    show "length (map (stringify n h') (o_children (h ! a))) = length (map Some ch)"
      using m by (metis length_map)
  next
    fix j assume j: "j < length (map (stringify n h') (o_children (h ! a)))"
    then have "stringify n h (o_children (h ! a) ! j) = Some (ch ! j)"
      using m by (metis length_map nth_map)
    from Suc.IH[OF this Suc.prems(2)] j
    show "map (stringify n h') (o_children (h ! a)) ! j = map Some ch ! j"
      using m by (metis length_map nth_map)
  qed
  then show ?case
    using len eq t by simp
qed

lemma stringify_fits: "stringify n h a = Some t \<Longrightarrow> fits n t"
proof (induction n arbitrary: a t)
  case 0
  then show ?case by simp
next
  case (Suc n)
  from Suc.prems have a: "a < length h"
    by (simp split: if_splits)
  with Suc.prems obtain ch where
    ch: "those (map (stringify n h) (o_children (h ! a))) = Some ch"
    and t: "t = Node (o_id (h ! a)) (o_label (h ! a)) (o_type (h ! a)) ch"
    by auto
  from those_Some_map[OF ch] have m: "map (stringify n h) (o_children (h ! a)) = map Some ch" .
  have "fits n c" if "c \<in> set ch" for c
  proof -
    from that obtain j where j: "j < length ch" "c = ch ! j"
      by (auto simp: in_set_conv_nth)
    with m have "stringify n h (o_children (h ! a) ! j) = Some c"
      by (metis length_map nth_map)
    then show ?thesis by (rule Suc.IH)
  qed
  with t show ?case by simp
qed

lemma stringify_wfS: "stringify n h a = Some t \<Longrightarrow> wfS UNIV n h a"
proof (induction n arbitrary: a t)
  case 0
  then show ?case by simp
next
  case (Suc n)
  from Suc.prems have a: "a < length h"
    by (simp split: if_splits)
  with Suc.prems obtain ch where
    ch: "those (map (stringify n h) (o_children (h ! a))) = Some ch"
    by auto
  from those_Some_map[OF ch] have m: "map (stringify n h) (o_children (h ! a)) = map Some ch" .
  have "wfS UNIV n h c" if "c \<in> set (o_children (h ! a))" for c
  proof -
    from that obtain j where j: "j < length (o_children (h ! a))" "c = o_children (h ! a) ! j"
      by (auto simp: in_set_conv_nth)
    with m have "stringify n h c = Some (ch ! j)"
      by (metis length_map nth_map)
    then show ?thesis by (rule Suc.IH)
  qed
  with a show ?case by simp
qed

subsubsection \<open>\<open>parse\<close>\<close>

lemma parseAll_facts:
  assumes "\<And>c n h h1 a. c \<in> set ch \<Longrightarrow> fits n c \<Longrightarrow> parse c h = (h1, a) \<Longrightarrow>
             prefix h h1 \<and> wfS {length h..} n h1 a \<and> stringify n h1 a = Some c"
    and "\<forall>c\<in>set ch. fits n c"
    and "parseAll (map parse ch) h = (h1, as)"
  shows "prefix h h1 \<and> (\<forall>a\<in>set as. wfS {length h..} n h1 a) \<and>
         map (stringify n h1) as = map Some ch"
  using assms
proof (induction ch arbitrary: h h1 as)
  case Nil
  then show ?case by simp
next
  case (Cons c rest)
  obtain hc a where pc: "parse c h = (hc, a)" by (cases "parse c h")
  obtain hr ar where pr: "parseAll (map parse rest) hc = (hr, ar)"
    by (cases "parseAll (map parse rest) hc")
  from Cons.prems(3) pc pr have h1: "h1 = hr" and as: "as = a # ar" by simp_all
  from Cons.prems(2) have fc: "fits n c" by simp
  have "prefix h hc \<and> wfS {length h..} n hc a \<and> stringify n hc a = Some c"
    by (rule Cons.prems(1)[OF _ fc pc]) simp
  then have c1: "prefix h hc" and c2: "wfS {length h..} n hc a"
    and c3: "stringify n hc a = Some c"
    by simp_all
  have "prefix hc hr \<and> (\<forall>a\<in>set ar. wfS {length hc..} n hr a) \<and>
         map (stringify n hr) ar = map Some rest"
  proof (rule Cons.IH[OF _ _ pr])
    show "\<forall>c\<in>set rest. fits n c" using Cons.prems(2) by simp
  next
    fix c' n' h' h1' a'
    assume "c' \<in> set rest" "fits n' c'" "parse c' h' = (h1', a')"
    then show "prefix h' h1' \<and> wfS {length h'..} n' h1' a' \<and> stringify n' h1' a' = Some c'"
      using Cons.prems(1)[of c' n' h' h1' a'] by simp
  qed
  then have r1: "prefix hc hr" and r2: "\<forall>a\<in>set ar. wfS {length hc..} n hr a"
    and r3: "map (stringify n hr) ar = map Some rest"
    by simp_all
  from c1 have le: "length h \<le> length hc" by (rule prefix_length_le)
  have "prefix h hr" using c1 r1 by (rule prefix_order.trans)
  moreover have "wfS {length h..} n hr a"
    using c2 r1 by (rule wfS_prefix)
  moreover have "\<forall>a\<in>set ar. wfS {length h..} n hr a"
    using r2 le by (auto elim: wfS_mono)
  moreover have "stringify n hr a = Some c"
    using c3 r1 by (rule stringify_prefix)
  ultimately show ?case
    using r3 by (simp add: h1 as)
qed

lemma parse_facts:
  "fits n t \<Longrightarrow> parse t h = (h1, a) \<Longrightarrow>
   prefix h h1 \<and> wfS {length h..} n h1 a \<and> stringify n h1 a = Some t"
proof (induction t arbitrary: n h h1 a)
  case (Node i l ty ch)
  from Node.prems(1) obtain m where n: "n = Suc m" and f: "\<forall>c\<in>set ch. fits m c"
    by (cases n) simp_all
  obtain hc as where pa: "parseAll (map parse ch) h = (hc, as)"
    by (cases "parseAll (map parse ch) h")
  let ?ob = "\<lparr>o_id = i, o_label = l, o_type = ty, o_children = as, o_depth = None,
              o_isCollapsed = None, o_x = None, o_y = None, o_halfWidth = None\<rparr>"
  from Node.prems(2) pa have h1: "h1 = hc @ [?ob]" and a: "a = length hc"
    by (simp_all add: alloc_def)
  have "prefix h hc \<and> (\<forall>a\<in>set as. wfS {length h..} m hc a) \<and>
         map (stringify m hc) as = map Some ch"
    by (rule parseAll_facts[OF _ f pa]) (rule Node.IH)
  then have p: "prefix h hc" and w: "\<forall>a\<in>set as. wfS {length h..} m hc a"
    and s: "map (stringify m hc) as = map Some ch"
    by simp_all
  have e: "prefix hc h1" by (simp add: h1)
  have at: "h1 ! a = ?ob" by (simp add: h1 a)
  have "prefix h h1" using p e by (rule prefix_order.trans)
  moreover have "wfS {length h..} n h1 a"
  proof -
    have "a < length h1" by (simp add: h1 a)
    moreover have "length h \<le> a" using prefix_length_le[OF p] by (simp add: a)
    moreover have "\<forall>c\<in>set as. wfS {length h..} m h1 c"
      using w e by (auto intro: wfS_prefix)
    ultimately show ?thesis by (simp add: n at)
  qed
  moreover have "map (stringify m h1) as = map Some ch"
  proof (rule nth_equalityI)
    show "length (map (stringify m h1) as) = length (map Some ch)"
      using s by (metis length_map)
  next
    fix j assume j: "j < length (map (stringify m h1) as)"
    then have "stringify m hc (as ! j) = Some (ch ! j)"
      using s by (metis length_map nth_map)
    from stringify_prefix[OF this e] j
    show "map (stringify m h1) as ! j = map Some ch ! j"
      using s by (metis length_map nth_map)
  qed
  then have "stringify n h1 a = Some (Node i l ty ch)"
    by (simp add: n at) (simp add: h1 a)
  ultimately show ?case by simp
qed

subsubsection \<open>\<open>assignCoordsH\<close>\<close>

lemma assignChildren_facts:
  assumes step: "\<And>A node d h k. wfS A n h node \<Longrightarrow>
      \<exists>p h' k'. assignCoordsH fl n cs d node (h, k) = Some (p, h', k') \<and>
                prefix h h' \<and> wfS (A \<union> {length h..}) n h' p"
  shows "\<forall>c\<in>set ch. wfS A n h c \<Longrightarrow>
     \<exists>ps h' k'. mapM (assignCoordsH fl n cs d) ch (h, k) = Some (ps, h', k') \<and>
                prefix h h' \<and> length ps = length ch \<and>
                (\<forall>q\<in>set ps. wfS (A \<union> {length h..}) n h' q)"
proof (induction ch arbitrary: h k)
  case Nil
  then show ?case by simp
next
  case (Cons c rest)
  from Cons.prems have "wfS A n h c" by simp
  from step[OF this, of d k] obtain p h1 k1 where
    a: "assignCoordsH fl n cs d c (h, k) = Some (p, h1, k1)"
    and p1: "prefix h h1" and w1: "wfS (A \<union> {length h..}) n h1 p"
    by blast
  have "\<forall>c\<in>set rest. wfS A n h1 c"
    using Cons.prems p1 by (auto intro: wfS_prefix)
  from Cons.IH[OF this, of k1] obtain ps h2 k2 where
    m: "mapM (assignCoordsH fl n cs d) rest (h1, k1) = Some (ps, h2, k2)"
    and p2: "prefix h1 h2" and len: "length ps = length rest"
    and w2: "\<forall>q\<in>set ps. wfS (A \<union> {length h1..}) n h2 q"
    by blast
  from p1 have le: "length h \<le> length h1" by (rule prefix_length_le)
  have "mapM (assignCoordsH fl n cs d) (c # rest) (h, k) = Some (p # ps, h2, k2)"
    using a m by simp
  moreover have "prefix h h2" using p1 p2 by (rule prefix_order.trans)
  moreover have "wfS (A \<union> {length h..}) n h2 p"
    using w1 p2 by (rule wfS_prefix)
  moreover have "\<forall>q\<in>set ps. wfS (A \<union> {length h..}) n h2 q"
    using w2 le by (auto elim!: wfS_mono)
  ultimately show ?case
    using len by simp
qed

lemma assignCoordsH_facts:
  "wfS A n h node \<Longrightarrow>
   \<exists>p h' k'. assignCoordsH fl n cs d node (h, k) = Some (p, h', k') \<and>
             prefix h h' \<and> wfS (A \<union> {length h..}) n h' p"
proof (induction n arbitrary: A node d h k)
  case 0
  then show ?case by simp
next
  case (Suc n)
  from Suc.prems have nA: "node \<in> A" and nl: "node < length h"
    and kids: "\<forall>c\<in>set (o_children (h ! node)). wfS A n h c"
    by simp_all
  let ?isC = "o_id (h ! node) \<in> cs"
  let ?ob = "(h ! node)\<lparr>o_depth := Some d, o_isCollapsed := Some ?isC\<rparr>"
  let ?p = "length h"
  let ?h1 = "h @ [?ob]"
  let ?B = "A \<union> {length h..}"
  have p1: "prefix h ?h1" by simp
  show ?case
  proof (cases "?isC \<or> o_children (h ! node) = []")
    case True
    let ?ob' = "?ob\<lparr>o_x := Some (of_nat d * 300 + 100), o_y := Some (of_nat k * 80 + 50)\<rparr>"
    let ?h' = "h @ [?ob']"
    have r: "assignCoordsH fl (Suc n) cs d node (h, k) = Some (?p, ?h', k + 1)"
      using True nl by (auto simp: alloc_def Let_def)
    have "\<forall>c\<in>set (o_children (?h' ! ?p)). wfS ?B n ?h' c"
    proof
      fix c assume "c \<in> set (o_children (?h' ! ?p))"
      then have "wfS A n h c" using kids by simp
      then have "wfS A n ?h' c" by (rule wfS_prefix) simp
      then show "wfS ?B n ?h' c" by (rule wfS_mono) simp
    qed
    then have "wfS ?B (Suc n) ?h' ?p"
      by simp
    with r show ?thesis by simp
  next
    case False
    let ?A0 = "A \<inter> {..<length h}"
    let ?ch = "o_children (h ! node)"
    have "\<forall>c\<in>set ?ch. wfS ?A0 n ?h1 c"
    proof
      fix c assume "c \<in> set ?ch"
      with kids have "wfS A n h c" by simp
      then have "wfS ?A0 n h c" by (rule wfS_bound)
      then show "wfS ?A0 n ?h1 c" using p1 by (rule wfS_prefix)
    qed
    from assignChildren_facts[where fl = fl and cs = cs and n = n, OF Suc.IH this, of "d + 1" k]
    obtain ps h2 k2 where
      m: "mapM (assignCoordsH fl n cs (d + 1)) ?ch (?h1, k) = Some (ps, h2, k2)"
      and p2: "prefix ?h1 h2" and len: "length ps = length ?ch"
      and w: "\<forall>q\<in>set ps. wfS (?A0 \<union> {length ?h1..}) n h2 q"
      by blast
    let ?C = "?A0 \<union> {length ?h1..}"
    from False len have ne: "ps \<noteq> []" by auto
    from p2 have l2: "?p < length h2"
      using prefix_length_le by fastforce
    let ?h3 = "h2[?p := (h2 ! ?p)\<lparr>o_children := ps\<rparr>]"
    let ?y = "case (o_y (?h3 ! hd ps), o_y (?h3 ! last ps)) of
                (Some a, Some b) \<Rightarrow> Some (fl (fl (a + b) / 2))
              | _ \<Rightarrow> None"
    let ?h4 = "?h3[?p := (?h3 ! ?p)\<lparr>o_x := Some (of_nat d * 300 + 100), o_y := ?y\<rparr>]"
    have r: "assignCoordsH fl (Suc n) cs d node (h, k) = Some (?p, ?h4, k2)"
      using False nl m ne by (simp add: alloc_def Let_def)
    have pC: "?p \<notin> ?C" by simp
    have "prefix h h2" using p1 p2 by (rule prefix_order.trans)
    then have "prefix h ?h3" by (rule prefix_update) simp
    then have p4: "prefix h ?h4" by (rule prefix_update) simp
    have ch4: "o_children (?h4 ! ?p) = ps"
      using l2 by simp
    have "\<forall>q\<in>set ps. wfS ?B n ?h4 q"
    proof
      fix q assume "q \<in> set ps"
      with w have "wfS ?C n h2 q" by simp
      then have "wfS ?C n ?h3 q" using pC by (rule wfS_update)
      then have "wfS ?C n ?h4 q" using pC by (rule wfS_update)
      then show "wfS ?B n ?h4 q" by (rule wfS_mono) auto
    qed
    then have "wfS ?B (Suc n) ?h4 ?p"
      using l2 ch4 by simp
    with r p4 show ?thesis by blast
  qed
qed

subsubsection \<open>\<open>collectH\<close>\<close>

lemma shape_update:
  "a < length h \<Longrightarrow> o_children v = o_children (h ! a) \<Longrightarrow>
   map o_children (h[a := v]) = map o_children h"
  by (simp add: map_update list_update_same_conv)

lemma shape_length: "map o_children h' = map o_children h \<Longrightarrow> length h' = length h"
  by (metis length_map)

lemma collectChildren_facts:
  assumes step: "\<And>node h ns es. wfS {lo..} n h node \<Longrightarrow>
      \<exists>h' ns' es'. collectH n node (h, ns, es) = Some (h', ns', es') \<and>
        map o_children h' = map o_children h \<and> take lo h' = take lo h \<and>
        set ns' \<subseteq> set ns \<union> {lo..<length h}"
  shows "\<forall>c\<in>set ch. wfS {lo..} n h c \<Longrightarrow>
     \<exists>h' ns' es'.
        forEachM (\<lambda>child (hc, nsc, esc).
                    if child < length hc
                    then collectH n child (hc, nsc, esc @ [mk hc child])
                    else None) ch (h, ns, es) = Some (h', ns', es') \<and>
        map o_children h' = map o_children h \<and> take lo h' = take lo h \<and>
        set ns' \<subseteq> set ns \<union> {lo..<length h}"
proof (induction ch arbitrary: h ns es)
  case Nil
  then show ?case by simp
next
  case (Cons c rest)
  from Cons.prems have wc: "wfS {lo..} n h c" by simp
  then have cl: "c < length h" by (simp add: wfS_less)
  from step[OF wc, of ns "es @ [mk h c]"] obtain h1 ns1 es1 where
    c1: "collectH n c (h, ns, es @ [mk h c]) = Some (h1, ns1, es1)"
    and s1: "map o_children h1 = map o_children h" and t1: "take lo h1 = take lo h"
    and n1: "set ns1 \<subseteq> set ns \<union> {lo..<length h}"
    by blast
  have "\<forall>c\<in>set rest. wfS {lo..} n h1 c"
    using Cons.prems by (simp add: wfS_shape[OF s1])
  from Cons.IH[OF this, of ns1 es1] obtain h2 ns2 es2 where
    r: "forEachM (\<lambda>child (hc, nsc, esc).
                    if child < length hc
                    then collectH n child (hc, nsc, esc @ [mk hc child])
                    else None) rest (h1, ns1, es1) = Some (h2, ns2, es2)"
    and s2: "map o_children h2 = map o_children h1" and t2: "take lo h2 = take lo h1"
    and n2: "set ns2 \<subseteq> set ns1 \<union> {lo..<length h1}"
    by blast
  have "length h1 = length h" using s1 by (rule shape_length)
  with n1 n2 have "set ns2 \<subseteq> set ns \<union> {lo..<length h}" by auto
  with c1 r s1 s2 t1 t2 cl show ?case by simp
qed

lemma collectH_facts:
  "wfS {lo..} n h node \<Longrightarrow>
   \<exists>h' ns' es'. collectH n node (h, ns, es) = Some (h', ns', es') \<and>
     map o_children h' = map o_children h \<and> take lo h' = take lo h \<and>
     set ns' \<subseteq> set ns \<union> {lo..<length h}"
proof (induction n arbitrary: node h ns es)
  case 0
  then show ?case by simp
next
  case (Suc n)
  from Suc.prems have lo: "lo \<le> node" and nl: "node < length h"
    and kids: "\<forall>c\<in>set (o_children (h ! node)). wfS {lo..} n h c"
    by simp_all
  let ?halfW = "max 140 (of_nat (length (o_label (h ! node))) *
                  (if o_type (h ! node) = ''code'' then 15 / 2 else 7) + 30) / 2"
  let ?h1 = "h[node := (h ! node)\<lparr>o_halfWidth := Some ?halfW\<rparr>]"
  have s1: "map o_children ?h1 = map o_children h"
    using nl by (simp add: shape_update)
  have t1: "take lo ?h1 = take lo h"
    using lo by simp
  have l1: "length ?h1 = length h" by simp
  show ?case
  proof (cases "o_isCollapsed (h ! node) = Some True")
    case True
    then have "collectH (Suc n) node (h, ns, es) = Some (?h1, ns @ [node], es)"
      using nl by (simp add: Let_def)
    with s1 t1 lo nl show ?thesis by simp
  next
    case False
    have "\<forall>c\<in>set (o_children (h ! node)). wfS {lo..} n ?h1 c"
      using kids by (simp add: wfS_shape[OF s1])
    from collectChildren_facts[where n = n and lo = lo, OF Suc.IH this,
        of "\<lambda>hc child. \<lparr>ox1 = map_option (\<lambda>x. x + ?halfW) (o_x (hc ! node)),
                          oy1 = o_y (hc ! node),
                          ox2 = map_option (\<lambda>x. x - max 140 (of_nat (length (o_label (hc ! child))) *
                                  (if o_type (hc ! child) = ''code'' then 15 / 2 else 7) + 30) / 2)
                                  (o_x (hc ! child)),
                          oy2 = o_y (hc ! child)\<rparr>" "ns @ [node]" es]
    obtain h2 ns2 es2 where
      f: "forEachM (\<lambda>child (hc, nsc, esc).
                    if child < length hc
                    then collectH n child
                      (hc, nsc, esc @ [\<lparr>ox1 = map_option (\<lambda>x. x + ?halfW) (o_x (hc ! node)),
                          oy1 = o_y (hc ! node),
                          ox2 = map_option (\<lambda>x. x - max 140 (of_nat (length (o_label (hc ! child))) *
                                  (if o_type (hc ! child) = ''code'' then 15 / 2 else 7) + 30) / 2)
                                  (o_x (hc ! child)),
                          oy2 = o_y (hc ! child)\<rparr>])
                    else None) (o_children (h ! node)) (?h1, ns @ [node], es) = Some (h2, ns2, es2)"
      and s2: "map o_children h2 = map o_children ?h1" and t2: "take lo h2 = take lo ?h1"
      and n2: "set ns2 \<subseteq> set (ns @ [node]) \<union> {lo..<length ?h1}"
      by blast
    have "collectH (Suc n) node (h, ns, es) = Some (h2, ns2, es2)"
      using False nl f by (simp add: Let_def split del: if_split cong: if_cong)
    moreover have "set ns2 \<subseteq> set ns \<union> {lo..<length h}"
      using n2 lo nl by auto
    ultimately show ?thesis
      using s1 s2 t1 t2 by simp
  qed
qed

subsubsection \<open>\<open>calculateLayoutH\<close>\<close>

lemma prefix_take: "prefix h h' \<Longrightarrow> take (length h) h' = h"
  by (auto simp: prefix_def)

lemma fits_Suc: "fits n t \<Longrightarrow> fits (Suc n) t"
  by (induction n arbitrary: t) auto

lemma fits_le: "n \<le> m \<Longrightarrow> fits n t \<Longrightarrow> fits m t"
proof (induction m rule: dec_induct)
  case base
  then show ?case .
next
  case (step k)
  from step.IH[OF step.prems] show ?case by (rule fits_Suc)
qed

lemma fits_exists: "\<exists>n. fits n t"
proof (induction t)
  case (Node i l ty ch)
  have "\<exists>n. \<forall>c\<in>set ch. fits n c"
    using Node.IH
  proof (induction ch)
    case Nil
    then show ?case by simp
  next
    case (Cons c rest)
    from Cons.prems obtain n1 where n1: "fits n1 c" by auto
    from Cons.IH Cons.prems obtain n2 where n2: "\<forall>c\<in>set rest. fits n2 c" by auto
    have "fits (max n1 n2) c" using n1 by (auto intro: fits_le[of n1])
    moreover have "\<forall>c\<in>set rest. fits (max n1 n2) c" using n2 by (auto intro: fits_le[of n2])
    ultimately show ?case by auto
  qed
  then obtain n where "\<forall>c\<in>set ch. fits n c" ..
  then have "fits (Suc n) (Node i l ty ch)" by simp
  then show ?case ..
qed

text \<open>Every tree is the tree below some object of some store.\<close>

lemma tree_in_heap: "\<exists>fuel. stringify fuel (fst (parse t h0)) (snd (parse t h0)) = Some t"
proof -
  obtain n where "fits n t" using fits_exists ..
  then have "stringify n (fst (parse t h0)) (snd (parse t h0)) = Some t"
    using parse_facts[of n t h0 "fst (parse t h0)" "snd (parse t h0)"] by simp
  then show ?thesis ..
qed

text \<open>
  The whole run: it returns, and the store it leaves is the store it started from
  followed by new objects.
\<close>

lemma calculateLayoutH_facts:
  assumes "stringify fuel h rootNode = Some t"
  shows "\<exists>h' L. calculateLayoutH fl fuel h rootNode cs = Some (h', L) \<and>
           prefix h h' \<and> (\<forall>n\<in>set (hnodes L). length h \<le> n \<and> n < length h')"
proof -
  let ?lo = "length h"
  from assms have f: "fits fuel t" by (rule stringify_fits)
  obtain h1 copy where p: "parse t h = (h1, copy)" by (cases "parse t h")
  from parse_facts[OF f p] have p1: "prefix h h1" and w1: "wfS {?lo..} fuel h1 copy"
    by simp_all
  from assignCoordsH_facts[OF w1, of fl cs 0 0] obtain q h2 k2 where
    a: "assignCoordsH fl fuel cs 0 copy (h1, 0) = Some (q, h2, k2)"
    and p2: "prefix h1 h2" and w2: "wfS ({?lo..} \<union> {length h1..}) fuel h2 q"
    by blast
  from p1 have "length h \<le> length h1" by (rule prefix_length_le)
  then have "{?lo..} \<union> {length h1..} \<subseteq> {?lo..}" by auto
  with w2 have w2': "wfS {?lo..} fuel h2 q" by (rule wfS_mono)
  from collectH_facts[OF w2', of "[]" "[]"] obtain h3 ns es where
    c: "collectH fuel q (h2, [], []) = Some (h3, ns, es)"
    and s3: "map o_children h3 = map o_children h2"
    and t3: "take ?lo h3 = take ?lo h2"
    and n3: "set ns \<subseteq> set [] \<union> {?lo..<length h2}"
    by blast
  obtain L where r: "calculateLayoutH fl fuel h rootNode cs = Some (h3, L)"
    and L: "hnodes L = ns"
    using assms p a c by (simp add: calculateLayoutH_def Let_def)
  have p12: "prefix h h2" using p1 p2 by (rule prefix_order.trans)
  have l3: "length h3 = length h2" using s3 by (rule shape_length)
  have "take ?lo h3 = h" using t3 prefix_take[OF p12] by simp
  then have p3: "prefix h h3" by (metis take_is_prefix)
  have "\<forall>n\<in>set (hnodes L). length h \<le> n \<and> n < length h3"
    using n3 l3 L by auto
  with r p3 show ?thesis by blast
qed

lemma sample_run:
  "calculateLayoutH id 2 sampleHeap 2 {} =
     Some (sampleHeap @
            [callerObj ''a'' ''A'' ''child'' [], callerObj ''b'' ''ls -la'' ''code'' [],
             callerObj ''r'' ''Root'' ''root'' [3, 4],
             \<lparr>o_id = ''r'', o_label = ''Root'', o_type = ''root'', o_children = [7, 8],
              o_depth = Some 0, o_isCollapsed = Some False, o_x = Some 100, o_y = Some 90,
              o_halfWidth = Some 70\<rparr>,
             \<lparr>o_id = ''a'', o_label = ''A'', o_type = ''child'', o_children = [],
              o_depth = Some 1, o_isCollapsed = Some False, o_x = Some 400, o_y = Some 50,
              o_halfWidth = Some 70\<rparr>,
             \<lparr>o_id = ''b'', o_label = ''ls -la'', o_type = ''code'', o_children = [],
              o_depth = Some 1, o_isCollapsed = Some False, o_x = Some 400, o_y = Some 130,
              o_halfWidth = Some 70\<rparr>],
           \<lparr>hnodes = [6, 7, 8],
            hedges = [\<lparr>ox1 = Some 170, oy1 = Some 90, ox2 = Some 330, oy2 = Some 50\<rparr>,
                      \<lparr>ox1 = Some 170, oy1 = Some 90, ox2 = Some 330, oy2 = Some 130\<rparr>],
            hwidth = Some 800, hheight = Some 600\<rparr>)"
  by (simp add: calculateLayoutH_def sampleHeap_def callerObj_def alloc_def Let_def
      numeral_2_eq_2 nth_append)

section \<open>The claims\<close>

text \<open>
  C1. For every tree and collapsed set the layout is returned, and its node list is, node
  for node and in order, the list of the nodes of the tree below no collapsed node, each
  with its nesting depth as \<open>depth\<close>. Every node of the list is flagged collapsed exactly
  when its id is in the set and has \<open>x = depth * 300 + 100\<close>. The nodes that are collapsed
  or have no children in the tree, in list order, have \<open>y = j * 80 + 50\<close> for
  \<open>j = 0, 1, 2, \<dots>\<close>, one slot each. Every other node has the layouts of its children in
  the tree as children, all of them in the list and one deeper than itself, and its \<open>y\<close>
  is \<open>(first.y + last.y) / 2\<close> of its first and last child as the machine computes it:
  the sum rounded, then the half rounded. Wherever neither step rounds, that is the exact
  mean of the two.
\<close>

theorem layout_coordinates:
  "\<exists>L. calculateLayout fl (Present t) cs = Inr L \<and>
     map (\<lambda>n. (depth n, sourceNode n)) (nodes L) =
       map (\<lambda>(anc, n). (length anc, n))
         (filter (\<lambda>(anc, n). \<forall>a\<in>set anc. a \<notin> cs) (withAncestors [] t)) \<and>
     (\<forall>n\<in>set (nodes L). isCollapsed n = (pid n \<in> cs) \<and> px n = of_nat (depth n) * 300 + 100) \<and>
     map py (filter (\<lambda>n. pid n \<in> cs \<or> children (sourceNode n) = []) (nodes L)) =
       map (\<lambda>j. of_nat j * 80 + 50)
         [0..<length (filter (\<lambda>n. pid n \<in> cs \<or> children (sourceNode n) = []) (nodes L))] \<and>
     (\<forall>n\<in>set (nodes L). \<not> (pid n \<in> cs \<or> children (sourceNode n) = []) \<longrightarrow>
        map sourceNode (pchildren n) = children (sourceNode n) \<and>
        set (pchildren n) \<subseteq> set (nodes L) \<and>
        (\<forall>c\<in>set (pchildren n). depth c = depth n + 1) \<and>
        py n = fl (fl (py (hd (pchildren n)) + py (last (pchildren n))) / 2) \<and>
        (fl (py (hd (pchildren n)) + py (last (pchildren n))) =
           py (hd (pchildren n)) + py (last (pchildren n)) \<longrightarrow>
         fl ((py (hd (pchildren n)) + py (last (pchildren n))) / 2) =
           (py (hd (pchildren n)) + py (last (pchildren n))) / 2 \<longrightarrow>
         py n = (py (hd (pchildren n)) + py (last (pchildren n))) / 2))"
proof -
  let ?p = "placed fl cs t 0 0"
  let ?ns = "map final (visibleNodes ?p)"
  let ?leaf = "\<lambda>n. pid n \<in> cs \<or> children (sourceNode n) = []"
  obtain L where L: "calculateLayout fl (Present t) cs = Inr L" and ns: "nodes L = ?ns"
    by (rule layout_parts)
  have vl: "visualLeaf (final n) = visualLeaf n" for n
    by (simp add: visualLeaf_def hasChildren_def)
  have "filter ?leaf ?ns = filter visualLeaf ?ns"
    by (rule filter_cong[OF refl]) (simp only: layout_node(5))
  then have "map py (filter ?leaf ?ns) = map py (filter visualLeaf (visibleNodes ?p))"
    by (simp add: filter_map comp_def vl)
  then have b0: "map py (filter ?leaf ?ns) = map slotY [0..<getLeafCount cs t]"
    using leaf_slots[of fl cs t 0 0] by simp
  have "length (filter ?leaf ?ns) = length (map py (filter ?leaf ?ns))"
    by simp
  also have "\<dots> = length (map slotY [0..<getLeafCount cs t])"
    by (simp only: b0)
  also have "\<dots> = getLeafCount cs t"
    by simp
  finally have "length (filter ?leaf ?ns) = getLeafCount cs t" .
  with b0 have b: "map py (filter ?leaf ?ns) =
       map (\<lambda>j. of_nat j * 80 + 50) [0..<length (filter ?leaf ?ns)]"
    by (simp add: slotY_def)
  show ?thesis
  proof (intro exI[of _ L] conjI ballI impI)
    show "calculateLayout fl (Present t) cs = Inr L" by fact
    show "map (\<lambda>n. (depth n, sourceNode n)) (nodes L) =
       map (\<lambda>(anc, n). (length anc, n))
         (filter (\<lambda>(anc, n). \<forall>a\<in>set anc. a \<notin> cs) (withAncestors [] t))"
      unfolding ns by (rule layout_nodes_tree)
    show "map py (filter ?leaf (nodes L)) =
       map (\<lambda>j. of_nat j * 80 + 50) [0..<length (filter ?leaf (nodes L))]"
      unfolding ns by (rule b)
  next
    fix n assume "n \<in> set (nodes L)"
    then have n: "n \<in> set ?ns" by (simp only: ns)
    show "isCollapsed n = (pid n \<in> cs)" "px n = of_nat (depth n) * 300 + 100"
      by (rule layout_node[OF n])+
    assume nl: "\<not> (pid n \<in> cs \<or> children (sourceNode n) = [])"
    then have nc: "\<not> isCollapsed n" by (simp add: layout_node(1)[OF n])
    show "map sourceNode (pchildren n) = children (sourceNode n)"
      by (rule layout_node(7)[OF n nc])
    show "set (pchildren n) \<subseteq> set (nodes L)"
      unfolding ns by (rule layout_node(8)[OF n nc])
    show y: "py n = fl (fl (py (hd (pchildren n)) + py (last (pchildren n))) / 2)"
      by (rule layout_node(10)[OF n nl])
    show "depth c = depth n + 1" if "c \<in> set (pchildren n)" for c
      by (rule layout_node(9)[OF n that])
    assume "fl (py (hd (pchildren n)) + py (last (pchildren n))) =
           py (hd (pchildren n)) + py (last (pchildren n))"
      and "fl ((py (hd (pchildren n)) + py (last (pchildren n))) / 2) =
           (py (hd (pchildren n)) + py (last (pchildren n))) / 2"
    with y show "py n = (py (hd (pchildren n)) + py (last (pchildren n))) / 2"
      by simp
  qed
qed

theorem layout_coordinates_witness:
  "map (\<lambda>(anc, n). (length anc, nid n))
     (filter (\<lambda>(anc, n). \<forall>a\<in>set anc. a \<notin> {''c''}) (withAncestors [] sampleTree)) =
     [(0, ''r''), (1, ''a''), (2, ''a1''), (2, ''a2''), (1, ''b''), (1, ''c'')] \<and>
   (\<exists>L. calculateLayout id (Present sampleTree) {''c''} = Inr L \<and>
      map (\<lambda>n. (pid n, depth n, isCollapsed n, px n, py n, halfWidth n)) (nodes L) =
        [(''r'', 0, False, 100, 190, Some 70), (''a'', 1, False, 400, 90, Some 70),
         (''a1'', 2, False, 700, 50, Some 70), (''a2'', 2, False, 700, 130, Some 70),
         (''b'', 1, False, 400, 210, Some 70), (''c'', 1, True, 400, 290, Some 70)] \<and>
      map (\<lambda>n. (depth n, sourceNode n)) (nodes L) =
        map (\<lambda>(anc, n). (length anc, n))
          (filter (\<lambda>(anc, n). \<forall>a\<in>set anc. a \<notin> {''c''}) (withAncestors [] sampleTree)) \<and>
      (\<forall>n\<in>set (nodes L). isCollapsed n = (pid n \<in> {''c''}) \<and>
         px n = of_nat (depth n) * 300 + 100) \<and>
      map py (filter (\<lambda>n. pid n \<in> {''c''} \<or> children (sourceNode n) = []) (nodes L)) =
        map (\<lambda>j. of_nat j * 80 + 50)
          [0..<length (filter (\<lambda>n. pid n \<in> {''c''} \<or> children (sourceNode n) = []) (nodes L))] \<and>
      (\<forall>n\<in>set (nodes L). \<not> (pid n \<in> {''c''} \<or> children (sourceNode n) = []) \<longrightarrow>
         map sourceNode (pchildren n) = children (sourceNode n) \<and>
         set (pchildren n) \<subseteq> set (nodes L) \<and>
         (\<forall>c\<in>set (pchildren n). depth c = depth n + 1) \<and>
         py n = (py (hd (pchildren n)) + py (last (pchildren n))) / 2))"
proof -
  have w: "map (\<lambda>(anc, n). (length anc, nid n))
     (filter (\<lambda>(anc, n). \<forall>a\<in>set anc. a \<notin> {''c''}) (withAncestors [] sampleTree)) =
     [(0, ''r''), (1, ''a''), (2, ''a1''), (2, ''a2''), (1, ''b''), (1, ''c'')]"
    by (simp add: sampleTree_def)
  from layout_coordinates[where fl = id and t = sampleTree and cs = "{''c''}"] obtain L where
    L: "calculateLayout id (Present sampleTree) {''c''} = Inr L"
    and a: "map (\<lambda>n. (depth n, sourceNode n)) (nodes L) =
        map (\<lambda>(anc, n). (length anc, n))
          (filter (\<lambda>(anc, n). \<forall>a\<in>set anc. a \<notin> {''c''}) (withAncestors [] sampleTree))"
    and b: "\<forall>n\<in>set (nodes L). isCollapsed n = (pid n \<in> {''c''}) \<and>
         px n = of_nat (depth n) * 300 + 100"
    and c: "map py (filter (\<lambda>n. pid n \<in> {''c''} \<or> children (sourceNode n) = []) (nodes L)) =
        map (\<lambda>j. of_nat j * 80 + 50)
          [0..<length (filter (\<lambda>n. pid n \<in> {''c''} \<or> children (sourceNode n) = []) (nodes L))]"
    and d: "\<forall>n\<in>set (nodes L). \<not> (pid n \<in> {''c''} \<or> children (sourceNode n) = []) \<longrightarrow>
         map sourceNode (pchildren n) = children (sourceNode n) \<and>
         set (pchildren n) \<subseteq> set (nodes L) \<and>
         (\<forall>c\<in>set (pchildren n). depth c = depth n + 1) \<and>
         py n = (py (hd (pchildren n)) + py (last (pchildren n))) / 2"
    by (elim exE conjE) (rule that, simp_all)
  from sample_layout L have
    "map (\<lambda>n. (pid n, depth n, isCollapsed n, px n, py n, halfWidth n)) (nodes L) =
        [(''r'', 0, False, 100, 190, Some 70), (''a'', 1, False, 400, 90, Some 70),
         (''a1'', 2, False, 700, 50, Some 70), (''a2'', 2, False, 700, 130, Some 70),
         (''b'', 1, False, 400, 210, Some 70), (''c'', 1, True, 400, 290, Some 70)]"
    by (elim exE conjE) simp
  with L a b c d have "\<exists>L. calculateLayout id (Present sampleTree) {''c''} = Inr L \<and>
      map (\<lambda>n. (pid n, depth n, isCollapsed n, px n, py n, halfWidth n)) (nodes L) =
        [(''r'', 0, False, 100, 190, Some 70), (''a'', 1, False, 400, 90, Some 70),
         (''a1'', 2, False, 700, 50, Some 70), (''a2'', 2, False, 700, 130, Some 70),
         (''b'', 1, False, 400, 210, Some 70), (''c'', 1, True, 400, 290, Some 70)] \<and>
      map (\<lambda>n. (depth n, sourceNode n)) (nodes L) =
        map (\<lambda>(anc, n). (length anc, n))
          (filter (\<lambda>(anc, n). \<forall>a\<in>set anc. a \<notin> {''c''}) (withAncestors [] sampleTree)) \<and>
      (\<forall>n\<in>set (nodes L). isCollapsed n = (pid n \<in> {''c''}) \<and>
         px n = of_nat (depth n) * 300 + 100) \<and>
      map py (filter (\<lambda>n. pid n \<in> {''c''} \<or> children (sourceNode n) = []) (nodes L)) =
        map (\<lambda>j. of_nat j * 80 + 50)
          [0..<length (filter (\<lambda>n. pid n \<in> {''c''} \<or> children (sourceNode n) = []) (nodes L))] \<and>
      (\<forall>n\<in>set (nodes L). \<not> (pid n \<in> {''c''} \<or> children (sourceNode n) = []) \<longrightarrow>
         map sourceNode (pchildren n) = children (sourceNode n) \<and>
         set (pchildren n) \<subseteq> set (nodes L) \<and>
         (\<forall>c\<in>set (pchildren n). depth c = depth n + 1) \<and>
         py n = (py (hd (pchildren n)) + py (last (pchildren n))) / 2)"
    by (intro exI[of _ L] conjI)
  with w show ?thesis by (intro conjI)
qed

text \<open>
  C2. For every tree and collapsed set, the node list of the layout is, node for node and
  in order, the list of those nodes of the tree none of whose strict ancestors has its id
  in the collapsed set: each such node gives one output node and no other node gives one.
  When the ids of the tree are pairwise distinct, a node's id therefore occurs in the
  output exactly when none of its strict ancestors is collapsed.
\<close>

theorem layout_visibility:
  "\<exists>L. calculateLayout fl (Present t) cs = Inr L \<and>
     map sourceNode (nodes L) =
       map snd (filter (\<lambda>(anc, n). \<forall>a\<in>set anc. a \<notin> cs) (withAncestors [] t)) \<and>
     (distinct (map (\<lambda>(anc, n). nid n) (withAncestors [] t)) \<longrightarrow>
        (\<forall>(anc, n)\<in>set (withAncestors [] t).
           nid n \<in> pid ` set (nodes L) \<longleftrightarrow> (\<forall>a\<in>set anc. a \<notin> cs)))"
proof -
  let ?W = "withAncestors [] t"
  let ?V = "filter (\<lambda>(anc, n). \<forall>a\<in>set anc. a \<notin> cs) ?W"
  let ?ns = "map final (visibleNodes (placed fl cs t 0 0))"
  obtain L where L: "calculateLayout fl (Present t) cs = Inr L" and ns: "nodes L = ?ns"
    by (rule layout_parts)
  have "map sourceNode ?ns = map sourceNode (visibleNodes (placed fl cs t 0 0))"
    by (simp add: comp_def sourceNode_final)
  also have "\<dots> = visibleSub cs t"
    by (rule visible_placed)
  also have "\<dots> = map snd ?V"
    by (simp add: filter_withAncestors)
  finally have eq: "map sourceNode ?ns = map snd ?V" .
  have ids: "pid ` set ?ns = (\<lambda>(anc, n). nid n) ` set ?V"
  proof -
    have "map pid ?ns = map nid (map sourceNode ?ns)"
      by (simp add: comp_def)
    also have "\<dots> = map nid (map snd ?V)"
      by (simp only: eq)
    also have "\<dots> = map (\<lambda>(anc, n). nid n) ?V"
      by (simp add: comp_def case_prod_unfold)
    finally have "set (map pid ?ns) = set (map (\<lambda>(anc, n). nid n) ?V)"
      by (rule arg_cong)
    then show ?thesis by (simp only: set_map)
  qed
  have iff: "nid n \<in> pid ` set ?ns \<longleftrightarrow> (\<forall>a\<in>set anc. a \<notin> cs)"
    if dist: "distinct (map (\<lambda>(anc, n). nid n) ?W)" and mem: "(anc, n) \<in> set ?W" for anc n
  proof
    assume "nid n \<in> pid ` set ?ns"
    with ids obtain anc' n' where v: "(anc', n') \<in> set ?V" and e: "nid n' = nid n"
      by auto
    from dist have inj: "inj_on (\<lambda>(anc, n). nid n) (set ?W)"
      by (simp add: distinct_map)
    from v have "(anc', n') \<in> set ?W" by simp
    with inj mem e have "(anc', n') = (anc, n)"
      using inj_onD[of "\<lambda>(anc, n). nid n" "set ?W" "(anc', n')" "(anc, n)"] by simp
    with v show "\<forall>a\<in>set anc. a \<notin> cs" by simp
  next
    assume "\<forall>a\<in>set anc. a \<notin> cs"
    with mem have "(anc, n) \<in> set ?V" by simp
    then have "nid n \<in> (\<lambda>(anc, n). nid n) ` set ?V" by force
    with ids show "nid n \<in> pid ` set ?ns" by simp
  qed
  show ?thesis
  proof (intro exI[of _ L] conjI impI)
    show "calculateLayout fl (Present t) cs = Inr L" by fact
    show "map sourceNode (nodes L) = map snd ?V"
      unfolding ns by (rule eq)
    assume "distinct (map (\<lambda>(anc, n). nid n) ?W)"
    then show "\<forall>(anc, n)\<in>set ?W. nid n \<in> pid ` set (nodes L) \<longleftrightarrow> (\<forall>a\<in>set anc. a \<notin> cs)"
      unfolding ns using iff by blast
  qed
qed

theorem layout_visibility_witness:
  "distinct (map (\<lambda>(anc, n). nid n) (withAncestors [] sampleTree)) \<and>
   map (\<lambda>(anc, n). (anc, nid n)) (withAncestors [] sampleTree) =
     [([], ''r''), ([''r''], ''a''), ([''r'', ''a''], ''a1''), ([''r'', ''a''], ''a2''),
      ([''r''], ''b''), ([''r''], ''c''), ([''r'', ''c''], ''c1'')] \<and>
   (\<exists>L. calculateLayout id (Present sampleTree) {''c''} = Inr L \<and>
      map (\<lambda>n. (pid n, depth n, isCollapsed n, px n, py n, halfWidth n)) (nodes L) =
        [(''r'', 0, False, 100, 190, Some 70), (''a'', 1, False, 400, 90, Some 70),
         (''a1'', 2, False, 700, 50, Some 70), (''a2'', 2, False, 700, 130, Some 70),
         (''b'', 1, False, 400, 210, Some 70), (''c'', 1, True, 400, 290, Some 70)] \<and>
      map sourceNode (nodes L) =
        map snd (filter (\<lambda>(anc, n). \<forall>a\<in>set anc. a \<notin> {''c''}) (withAncestors [] sampleTree)) \<and>
      (\<forall>(anc, n)\<in>set (withAncestors [] sampleTree).
           nid n \<in> pid ` set (nodes L) \<longleftrightarrow> (\<forall>a\<in>set anc. a \<notin> {''c''})))"
proof -
  have d: "distinct (map (\<lambda>(anc, n). nid n) (withAncestors [] sampleTree))"
    by (simp add: sampleTree_def)
  have w: "map (\<lambda>(anc, n). (anc, nid n)) (withAncestors [] sampleTree) =
     [([], ''r''), ([''r''], ''a''), ([''r'', ''a''], ''a1''), ([''r'', ''a''], ''a2''),
      ([''r''], ''b''), ([''r''], ''c''), ([''r'', ''c''], ''c1'')]"
    by (simp add: sampleTree_def)
  from layout_visibility[where fl = id and t = sampleTree and cs = "{''c''}"] d obtain L where
    L: "calculateLayout id (Present sampleTree) {''c''} = Inr L"
    and v: "map sourceNode (nodes L) =
        map snd (filter (\<lambda>(anc, n). \<forall>a\<in>set anc. a \<notin> {''c''}) (withAncestors [] sampleTree))"
    and i: "\<forall>(anc, n)\<in>set (withAncestors [] sampleTree).
           nid n \<in> pid ` set (nodes L) \<longleftrightarrow> (\<forall>a\<in>set anc. a \<notin> {''c''})"
    by (elim exE conjE) (rule that, simp_all)
  from sample_layout L have
    "map (\<lambda>n. (pid n, depth n, isCollapsed n, px n, py n, halfWidth n)) (nodes L) =
        [(''r'', 0, False, 100, 190, Some 70), (''a'', 1, False, 400, 90, Some 70),
         (''a1'', 2, False, 700, 50, Some 70), (''a2'', 2, False, 700, 130, Some 70),
         (''b'', 1, False, 400, 210, Some 70), (''c'', 1, True, 400, 290, Some 70)]"
    by (elim exE conjE) simp
  with L v i have "\<exists>L. calculateLayout id (Present sampleTree) {''c''} = Inr L \<and>
      map (\<lambda>n. (pid n, depth n, isCollapsed n, px n, py n, halfWidth n)) (nodes L) =
        [(''r'', 0, False, 100, 190, Some 70), (''a'', 1, False, 400, 90, Some 70),
         (''a1'', 2, False, 700, 50, Some 70), (''a2'', 2, False, 700, 130, Some 70),
         (''b'', 1, False, 400, 210, Some 70), (''c'', 1, True, 400, 290, Some 70)] \<and>
      map sourceNode (nodes L) =
        map snd (filter (\<lambda>(anc, n). \<forall>a\<in>set anc. a \<notin> {''c''}) (withAncestors [] sampleTree)) \<and>
      (\<forall>(anc, n)\<in>set (withAncestors [] sampleTree).
           nid n \<in> pid ` set (nodes L) \<longleftrightarrow> (\<forall>a\<in>set anc. a \<notin> {''c''}))"
    by (intro exI[of _ L] conjI)
  with d w show ?thesis by (intro conjI)
qed

text \<open>
  C3. Take a tree in which no node with children other than the root carries the id of
  the root (so every tree whose ids are pairwise distinct). After seeding, the collapsed
  set holds exactly the ids of the nodes below the root that have at least one child, and
  the layout with the seeded set consists of the root followed by its direct children,
  in order, and of nothing else; every output node has depth at most 1.
\<close>

theorem seed_collapses_inner_nodes:
  assumes "\<forall>n\<in>set (descendants t). children n \<noteq> [] \<longrightarrow> nid n \<noteq> nid t"
  shows "seed (Present t) = nid ` {n \<in> set (descendants t). children n \<noteq> []} \<and>
    (\<exists>L. calculateLayout fl (Present t) (seed (Present t)) = Inr L \<and>
       map sourceNode (nodes L) = t # children t \<and>
       (\<forall>n\<in>set (nodes L). depth n \<le> 1))"
proof -
  let ?cs = "seed (Present t)"
  have s: "?cs = nid ` {n \<in> set (descendants t). children n \<noteq> []}"
    using assms by (auto simp: seed_set)
  have root: "nid t \<notin> ?cs"
    by (auto simp: seed_set)
  have kid: "nid c \<in> ?cs \<or> children c = []" if "c \<in> set (children t)" for c
    using child_descendant[OF that] by (auto simp: s)
  obtain L where L: "calculateLayout fl (Present t) ?cs = Inr L"
    and ns: "nodes L = map final (visibleNodes (placed fl ?cs t 0 0))"
    by (rule layout_parts)
  obtain i l ty ch where t: "t = Node i l ty ch" by (cases t)
  have "map sourceNode (nodes L) = visibleSub ?cs t"
    unfolding ns by (simp add: comp_def sourceNode_final visible_placed)
  also have "\<dots> = t # concat (map (visibleSub ?cs) (children t))"
    using root by (cases t) simp
  also have "map (visibleSub ?cs) (children t) = map (\<lambda>c. [c]) (children t)"
    using kid by (simp add: visibleSub_leaf)
  finally have a: "map sourceNode (nodes L) = t # children t"
    by simp
  have d: "depth n \<le> 1" if "n \<in> set (visibleNodes (placed fl ?cs t 0 0))" for n
  proof (cases "n = placed fl ?cs t 0 0")
    case True
    then show ?thesis by simp
  next
    case False
    with that t have "n \<in> set (concat (map visibleNodes (placedList fl ?cs ch (0 + 1) 0)))"
      by (simp add: visibleNodes_placed split: if_splits)
    then obtain q where q: "q \<in> set (placedList fl ?cs ch (0 + 1) 0)" "n \<in> set (visibleNodes q)"
      by auto
    from placedList_mem[OF q(1)] obtain c k' where c: "c \<in> set ch" "q = placed fl ?cs c (0 + 1) k'"
      by blast
    with kid t have "visibleNodes q = [q]"
      by (simp add: visibleNodes_leaf)
    with q(2) c(2) show ?thesis by simp
  qed
  show ?thesis
  proof (intro conjI exI[of _ L])
    show "?cs = nid ` {n \<in> set (descendants t). children n \<noteq> []}" by (rule s)
    show "calculateLayout fl (Present t) ?cs = Inr L" by (rule L)
    show "map sourceNode (nodes L) = t # children t" by (rule a)
    show "\<forall>n\<in>set (nodes L). depth n \<le> 1"
      unfolding ns using d by auto
  qed
qed

theorem seed_collapses_inner_nodes_witness:
  "nid sampleTree = ''r'' \<and>
   map nid (filter (\<lambda>n. children n \<noteq> []) (descendants sampleTree)) = [''a'', ''c''] \<and>
   seed (Present sampleTree) = {''a'', ''c''} \<and>
   seed (Present sampleTree) = nid ` {n \<in> set (descendants sampleTree). children n \<noteq> []} \<and>
   (\<exists>L. calculateLayout id (Present sampleTree) (seed (Present sampleTree)) = Inr L \<and>
      map pid (nodes L) = [''r'', ''a'', ''b'', ''c''] \<and>
      map sourceNode (nodes L) = sampleTree # children sampleTree \<and>
      (\<forall>n\<in>set (nodes L). depth n \<le> 1))"
proof -
  have h: "\<forall>n\<in>set (descendants sampleTree). children n \<noteq> [] \<longrightarrow> nid n \<noteq> nid sampleTree"
    by (simp add: sampleTree_def)
  have sd: "seed (Present sampleTree) = {''a'', ''c''}"
    by (simp add: sampleTree_def seed_def) blast
  from seed_collapses_inner_nodes[OF h, where fl = id] obtain L where
    s: "seed (Present sampleTree) = nid ` {n \<in> set (descendants sampleTree). children n \<noteq> []}"
    and L: "calculateLayout id (Present sampleTree) (seed (Present sampleTree)) = Inr L"
    and m: "map sourceNode (nodes L) = sampleTree # children sampleTree"
    and d: "\<forall>n\<in>set (nodes L). depth n \<le> 1"
    by (elim exE conjE) (rule that)
  from m have "map nid (map sourceNode (nodes L)) = map nid (sampleTree # children sampleTree)"
    by (rule arg_cong)
  then have ids: "map pid (nodes L) = [''r'', ''a'', ''b'', ''c'']"
    by (simp add: comp_def sampleTree_def)
  have r: "nid sampleTree = ''r''"
    by (simp add: sampleTree_def)
  have inner: "map nid (filter (\<lambda>n. children n \<noteq> []) (descendants sampleTree)) = [''a'', ''c'']"
    by (simp add: sampleTree_def)
  from r inner sd s L ids m d show ?thesis
    by (intro conjI exI[of _ L])
qed

text \<open>
  C4. For every tree and collapsed set, the node list of the layout is the list of the
  nodes of the tree below no collapsed node; each of its nodes is flagged collapsed
  exactly when its id is in the set and, when it is not, has the layouts of its children
  in the tree as children, all of them in the list. The edge list holds, counted with
  multiplicity, exactly one edge for each pair of a listed node that is not collapsed and
  one of its children, and nothing else; so the number of edges is the number of pairs
  of a visible node of the tree whose id is not in the set and one of its children. The
  edge runs from \<open>(parent.x + parent.halfWidth, parent.y)\<close> to
  \<open>(child.x - child.halfWidth, child.y)\<close>, where the \<open>halfWidth\<close> of every listed node is
  half of the width the Sizing Function gives for its own label and kind.
\<close>

theorem layout_edges:
  "\<exists>L. calculateLayout fl (Present t) cs = Inr L \<and>
     map sourceNode (nodes L) =
       map snd (filter (\<lambda>(anc, n). \<forall>a\<in>set anc. a \<notin> cs) (withAncestors [] t)) \<and>
     (\<forall>n\<in>set (nodes L).
        isCollapsed n = (pid n \<in> cs) \<and>
        halfWidth n = Some (specWidth (plabel n) (ptype n) / 2) \<and>
        (\<not> isCollapsed n \<longrightarrow>
           map sourceNode (pchildren n) = children (sourceNode n) \<and>
           set (pchildren n) \<subseteq> set (nodes L))) \<and>
     mset (edges L) =
       mset (concat (map (\<lambda>n. if isCollapsed n then []
                               else map (\<lambda>c. \<lparr>x1 = px n + the (halfWidth n), y1 = py n,
                                               x2 = px c - the (halfWidth c), y2 = py c\<rparr>)
                                      (pchildren n))
                         (nodes L))) \<and>
     length (edges L) =
       sum_list (map (\<lambda>(anc, n). if nid n \<in> cs then 0 else length (children n))
         (filter (\<lambda>(anc, n). \<forall>a\<in>set anc. a \<notin> cs) (withAncestors [] t)))"
proof -
  let ?p = "placed fl cs t 0 0"
  let ?ns = "map final (visibleNodes ?p)"
  let ?V = "filter (\<lambda>(anc, n). \<forall>a\<in>set anc. a \<notin> cs) (withAncestors [] t)"
  let ?out = "\<lambda>n. if isCollapsed n then []
                 else map (\<lambda>c. \<lparr>x1 = px n + the (halfWidth n), y1 = py n,
                                 x2 = px c - the (halfWidth c), y2 = py c\<rparr>) (pchildren n)"
  let ?g = "\<lambda>n. if nid n \<in> cs then 0 else length (children n)"
  obtain L where L: "calculateLayout fl (Present t) cs = Inr L" and ns: "nodes L = ?ns"
    and es: "edges L = snd (snd (collect ?p))"
    by (rule layout_parts)
  have src: "map sourceNode ?ns = map snd ?V"
    by (rule layout_nodes_source)
  have out: "?out (final q) = outEdges q" for q
    by (simp add: outEdges_def edgeBetween_def)
  have "mset (edges L) = mset (concat (map outEdges (visibleNodes ?p)))"
    unfolding es by (rule collect_edges)
  also have "map outEdges (visibleNodes ?p) = map (\<lambda>q. ?out (final q)) (visibleNodes ?p)"
    by (simp only: out)
  also have "\<dots> = map ?out ?ns"
    by (simp only: map_map comp_def)
  finally have a: "mset (edges L) = mset (concat (map ?out ?ns))" .
  have len: "length (?out n) = ?g (sourceNode n)" if n: "n \<in> set ?ns" for n
  proof (cases "isCollapsed n")
    case True
    with layout_node(1)[OF n] show ?thesis by simp
  next
    case False
    have "length (pchildren n) = length (map sourceNode (pchildren n))" by simp
    also have "\<dots> = length (children (sourceNode n))"
      by (simp only: layout_node(7)[OF n False])
    finally show ?thesis
      using False layout_node(1)[OF n] by simp
  qed
  have "length (edges L) = size (mset (edges L))" by simp
  also have "\<dots> = length (concat (map ?out ?ns))"
    by (simp only: a size_mset)
  also have "\<dots> = sum_list (map (\<lambda>n. length (?out n)) ?ns)"
    by (simp only: length_concat map_map comp_def)
  also have "\<dots> = sum_list (map (\<lambda>n. ?g (sourceNode n)) ?ns)"
    by (rule arg_cong[where f = sum_list], rule map_cong[OF refl], rule len)
  also have "\<dots> = sum_list (map ?g (map sourceNode ?ns))"
    by (simp only: map_map comp_def)
  also have "\<dots> = sum_list (map ?g (map snd ?V))"
    by (simp only: src)
  also have "\<dots> = sum_list (map (\<lambda>(anc, n). ?g n) ?V)"
    by (simp only: map_map comp_def case_prod_unfold)
  finally have cnt: "length (edges L) = sum_list (map (\<lambda>(anc, n). ?g n) ?V)" .
  show ?thesis
  proof (intro exI[of _ L] conjI ballI impI)
    show "calculateLayout fl (Present t) cs = Inr L" by fact
    show "map sourceNode (nodes L) = map snd ?V"
      unfolding ns by (rule src)
    show "mset (edges L) = mset (concat (map ?out (nodes L)))"
      unfolding ns by (rule a)
    show "length (edges L) = sum_list (map (\<lambda>(anc, n). ?g n) ?V)"
      by (rule cnt)
  next
    fix n assume "n \<in> set (nodes L)"
    then have n: "n \<in> set ?ns" by (simp only: ns)
    show "isCollapsed n = (pid n \<in> cs)"
      "halfWidth n = Some (specWidth (plabel n) (ptype n) / 2)"
      by (rule layout_node[OF n])+
    assume nc: "\<not> isCollapsed n"
    show "map sourceNode (pchildren n) = children (sourceNode n)"
      by (rule layout_node(7)[OF n nc])
    show "set (pchildren n) \<subseteq> set (nodes L)"
      unfolding ns by (rule layout_node(8)[OF n nc])
  qed
qed

theorem layout_edges_witness:
  "map (\<lambda>(anc, n). (nid n, if nid n \<in> {''c''} then 0 else length (children n)))
     (filter (\<lambda>(anc, n). \<forall>a\<in>set anc. a \<notin> {''c''}) (withAncestors [] sampleTree)) =
     [(''r'', 3), (''a'', 2), (''a1'', 0), (''a2'', 0), (''b'', 0), (''c'', 0)] \<and>
   (\<exists>L. calculateLayout id (Present sampleTree) {''c''} = Inr L \<and>
     map (\<lambda>n. (pid n, depth n, isCollapsed n, px n, py n, halfWidth n)) (nodes L) =
       [(''r'', 0, False, 100, 190, Some 70), (''a'', 1, False, 400, 90, Some 70),
        (''a1'', 2, False, 700, 50, Some 70), (''a2'', 2, False, 700, 130, Some 70),
        (''b'', 1, False, 400, 210, Some 70), (''c'', 1, True, 400, 290, Some 70)] \<and>
     edges L =
       [\<lparr>x1 = 170, y1 = 190, x2 = 330, y2 = 90\<rparr>, \<lparr>x1 = 470, y1 = 90, x2 = 630, y2 = 50\<rparr>,
        \<lparr>x1 = 470, y1 = 90, x2 = 630, y2 = 130\<rparr>, \<lparr>x1 = 170, y1 = 190, x2 = 330, y2 = 210\<rparr>,
        \<lparr>x1 = 170, y1 = 190, x2 = 330, y2 = 290\<rparr>] \<and>
     map sourceNode (nodes L) =
       map snd (filter (\<lambda>(anc, n). \<forall>a\<in>set anc. a \<notin> {''c''}) (withAncestors [] sampleTree)) \<and>
     (\<forall>n\<in>set (nodes L).
        isCollapsed n = (pid n \<in> {''c''}) \<and>
        halfWidth n = Some (specWidth (plabel n) (ptype n) / 2) \<and>
        (\<not> isCollapsed n \<longrightarrow>
           map sourceNode (pchildren n) = children (sourceNode n) \<and>
           set (pchildren n) \<subseteq> set (nodes L))) \<and>
     mset (edges L) =
       mset (concat (map (\<lambda>n. if isCollapsed n then []
                               else map (\<lambda>c. \<lparr>x1 = px n + the (halfWidth n), y1 = py n,
                                               x2 = px c - the (halfWidth c), y2 = py c\<rparr>)
                                      (pchildren n))
                         (nodes L))) \<and>
     length (edges L) =
       sum_list (map (\<lambda>(anc, n). if nid n \<in> {''c''} then 0 else length (children n))
         (filter (\<lambda>(anc, n). \<forall>a\<in>set anc. a \<notin> {''c''}) (withAncestors [] sampleTree))))"
proof -
  have w: "map (\<lambda>(anc, n). (nid n, if nid n \<in> {''c''} then 0 else length (children n)))
     (filter (\<lambda>(anc, n). \<forall>a\<in>set anc. a \<notin> {''c''}) (withAncestors [] sampleTree)) =
     [(''r'', 3), (''a'', 2), (''a1'', 0), (''a2'', 0), (''b'', 0), (''c'', 0)]"
    by (simp add: sampleTree_def)
  from layout_edges[where fl = id and t = sampleTree and cs = "{''c''}"] obtain L where
    L: "calculateLayout id (Present sampleTree) {''c''} = Inr L"
    and s: "map sourceNode (nodes L) =
       map snd (filter (\<lambda>(anc, n). \<forall>a\<in>set anc. a \<notin> {''c''}) (withAncestors [] sampleTree))"
    and h: "\<forall>n\<in>set (nodes L).
        isCollapsed n = (pid n \<in> {''c''}) \<and>
        halfWidth n = Some (specWidth (plabel n) (ptype n) / 2) \<and>
        (\<not> isCollapsed n \<longrightarrow>
           map sourceNode (pchildren n) = children (sourceNode n) \<and>
           set (pchildren n) \<subseteq> set (nodes L))"
    and m: "mset (edges L) =
       mset (concat (map (\<lambda>n. if isCollapsed n then []
                               else map (\<lambda>c. \<lparr>x1 = px n + the (halfWidth n), y1 = py n,
                                               x2 = px c - the (halfWidth c), y2 = py c\<rparr>)
                                      (pchildren n))
                         (nodes L)))"
    and c: "length (edges L) =
       sum_list (map (\<lambda>(anc, n). if nid n \<in> {''c''} then 0 else length (children n))
         (filter (\<lambda>(anc, n). \<forall>a\<in>set anc. a \<notin> {''c''}) (withAncestors [] sampleTree)))"
    by (elim exE conjE) (rule that, simp_all)
  from sample_layout L have
    "map (\<lambda>n. (pid n, depth n, isCollapsed n, px n, py n, halfWidth n)) (nodes L) =
       [(''r'', 0, False, 100, 190, Some 70), (''a'', 1, False, 400, 90, Some 70),
        (''a1'', 2, False, 700, 50, Some 70), (''a2'', 2, False, 700, 130, Some 70),
        (''b'', 1, False, 400, 210, Some 70), (''c'', 1, True, 400, 290, Some 70)]"
    and "edges L =
       [\<lparr>x1 = 170, y1 = 190, x2 = 330, y2 = 90\<rparr>, \<lparr>x1 = 470, y1 = 90, x2 = 630, y2 = 50\<rparr>,
        \<lparr>x1 = 470, y1 = 90, x2 = 630, y2 = 130\<rparr>, \<lparr>x1 = 170, y1 = 190, x2 = 330, y2 = 210\<rparr>,
        \<lparr>x1 = 170, y1 = 190, x2 = 330, y2 = 290\<rparr>]"
    by (elim exE conjE, simp)+
  with L s h m c have "\<exists>L. calculateLayout id (Present sampleTree) {''c''} = Inr L \<and>
     map (\<lambda>n. (pid n, depth n, isCollapsed n, px n, py n, halfWidth n)) (nodes L) =
       [(''r'', 0, False, 100, 190, Some 70), (''a'', 1, False, 400, 90, Some 70),
        (''a1'', 2, False, 700, 50, Some 70), (''a2'', 2, False, 700, 130, Some 70),
        (''b'', 1, False, 400, 210, Some 70), (''c'', 1, True, 400, 290, Some 70)] \<and>
     edges L =
       [\<lparr>x1 = 170, y1 = 190, x2 = 330, y2 = 90\<rparr>, \<lparr>x1 = 470, y1 = 90, x2 = 630, y2 = 50\<rparr>,
        \<lparr>x1 = 470, y1 = 90, x2 = 630, y2 = 130\<rparr>, \<lparr>x1 = 170, y1 = 190, x2 = 330, y2 = 210\<rparr>,
        \<lparr>x1 = 170, y1 = 190, x2 = 330, y2 = 290\<rparr>] \<and>
     map sourceNode (nodes L) =
       map snd (filter (\<lambda>(anc, n). \<forall>a\<in>set anc. a \<notin> {''c''}) (withAncestors [] sampleTree)) \<and>
     (\<forall>n\<in>set (nodes L).
        isCollapsed n = (pid n \<in> {''c''}) \<and>
        halfWidth n = Some (specWidth (plabel n) (ptype n) / 2) \<and>
        (\<not> isCollapsed n \<longrightarrow>
           map sourceNode (pchildren n) = children (sourceNode n) \<and>
           set (pchildren n) \<subseteq> set (nodes L))) \<and>
     mset (edges L) =
       mset (concat (map (\<lambda>n. if isCollapsed n then []
                               else map (\<lambda>c. \<lparr>x1 = px n + the (halfWidth n), y1 = py n,
                                               x2 = px c - the (halfWidth c), y2 = py c\<rparr>)
                                      (pchildren n))
                         (nodes L))) \<and>
     length (edges L) =
       sum_list (map (\<lambda>(anc, n). if nid n \<in> {''c''} then 0 else length (children n))
         (filter (\<lambda>(anc, n). \<forall>a\<in>set anc. a \<notin> {''c''}) (withAncestors [] sampleTree)))"
    by (intro exI[of _ L] conjI)
  with w show ?thesis by (intro conjI)
qed

text \<open>
  C5. The width computed for a label and a kind, in \<open>MindMapNode\<close> and in \<open>collect\<close>,
  is \<open>max(140, length * 7.5 + 30)\<close> when the kind is \<open>code\<close> and
  \<open>max(140, length * 7 + 30)\<close> otherwise; the \<open>halfWidth\<close> of every output node of
  every layout is half of it. A label of length 40 gives 330 for kind \<open>code\<close> and 310
  for kind \<open>child\<close>.
\<close>

theorem sizing_function:
  "calculatedWidth lbl ty =
     (if ty = ''code'' then max 140 (of_nat (length lbl) * (15 / 2) + 30)
      else max 140 (of_nat (length lbl) * 7 + 30)) \<and>
   (length lbl = 40 \<longrightarrow> calculatedWidth lbl ''code'' = 330 \<and> calculatedWidth lbl ''child'' = 310) \<and>
   (\<exists>L. calculateLayout fl (Present t) cs = Inr L \<and>
      (\<forall>n\<in>set (nodes L). halfWidth n = Some (calculatedWidth (plabel n) (ptype n) / 2)))"
proof (intro conjI impI)
  show "calculatedWidth lbl ty =
     (if ty = ''code'' then max 140 (of_nat (length lbl) * (15 / 2) + 30)
      else max 140 (of_nat (length lbl) * 7 + 30))"
    by (simp add: calculatedWidth_def)
  assume "length lbl = 40"
  then show "calculatedWidth lbl ''code'' = 330" "calculatedWidth lbl ''child'' = 310"
    by (simp_all add: calculatedWidth_def)
next
  obtain L where L: "calculateLayout fl (Present t) cs = Inr L"
    and ns: "nodes L = map final (visibleNodes (placed fl cs t 0 0))"
    by (rule layout_parts)
  have "\<forall>n\<in>set (nodes L). halfWidth n = Some (calculatedWidth (plabel n) (ptype n) / 2)"
    unfolding ns by (auto simp: calculatedWidth_spec)
  with L show "\<exists>L. calculateLayout fl (Present t) cs = Inr L \<and>
      (\<forall>n\<in>set (nodes L). halfWidth n = Some (calculatedWidth (plabel n) (ptype n) / 2))"
    by blast
qed

theorem sizing_function_witness:
  "length label40 = 40 \<and> calculatedWidth label40 ''code'' = 330 \<and>
   calculatedWidth label40 ''child'' = 310 \<and>
   (\<exists>L. calculateLayout id (Present (Node ''n'' label40 ''code'' [])) {} = Inr L \<and>
      map halfWidth (nodes L) = [Some 165] \<and>
      (\<forall>n\<in>set (nodes L). halfWidth n = Some (calculatedWidth (plabel n) (ptype n) / 2)))"
proof -
  have len: "length label40 = 40"
    by (simp add: label40_def)
  from sizing_function[where lbl = label40 and ty = "''code''" and fl = id
      and t = "Node ''n'' label40 ''code'' []" and cs = "{}"] len
  obtain L where w: "calculatedWidth label40 ''code'' = 330" "calculatedWidth label40 ''child'' = 310"
    and L: "calculateLayout id (Present (Node ''n'' label40 ''code'' [])) {} = Inr L"
    and h: "\<forall>n\<in>set (nodes L). halfWidth n = Some (calculatedWidth (plabel n) (ptype n) / 2)"
    by (elim exE conjE) (rule that, simp_all)
  have "calculateLayout id (Present (Node ''n'' label40 ''code'' [])) {} =
          Inr \<lparr>nodes = [PNode ''n'' label40 ''code'' [] [] 0 False 100 50 (Some 165)],
               edges = [], width = 800, height = 600\<rparr>"
    by (simp add: calculateLayout_def Let_def len)
  with L have "map halfWidth (nodes L) = [Some 165]"
    by auto
  with len w L h show ?thesis
    by (intro conjI exI[of _ L])
qed

text \<open>
  C6. Toggling the same id twice gives back the collapsed set it started from, whatever
  the set and the id, and so the layout of any tree after the two toggles is the layout
  before them.
\<close>

theorem toggle_twice:
  "handleToggle i (handleToggle i s) = s \<and>
   calculateLayout fl r (handleToggle i (handleToggle i s)) = calculateLayout fl r s"
proof -
  have "handleToggle i (handleToggle i s) = s"
    by (auto simp: handleToggle_def)
  then show ?thesis by simp
qed

text \<open>
  C7. When there is no tree (the state holds \<open>null\<close>, as it does at start and after the
  panel is closed, or nothing at all), the renderer is not mounted and the layout is not
  computed: there is no layout result, so no empty one with an 800 by 600 box either, and
  no error (the layout function itself, were it called on \<open>null\<close> or on nothing, would
  throw). The panel never ends in an error, whatever it holds. When a tree is there, the
  panel holds the layout of the tree, which has at least the node of the root, a width of
  at least 800 and a height of at least 600.
\<close>

theorem panel_without_tree:
  "mindMapPanel fl Null cs = None \<and> mindMapPanel fl Undefined cs = None \<and>
   calculateLayout fl Null cs = Inl TypeError \<and>
   calculateLayout fl Undefined cs = Inl SyntaxError \<and>
   (\<forall>e. mindMapPanel fl a cs \<noteq> Some (Inl e)) \<and>
   (\<exists>L. mindMapPanel fl (Present t) cs = Some (Inr L) \<and>
      calculateLayout fl (Present t) cs = Inr L \<and>
      nodes L \<noteq> [] \<and> sourceNode (hd (nodes L)) = t \<and> 800 \<le> width L \<and> 600 \<le> height L)"
proof -
  obtain L where L: "calculateLayout fl (Present t) cs = Inr L"
    and ns: "nodes L = map final (visibleNodes (placed fl cs t 0 0))"
    and e: "edges L = snd (snd (collect (placed fl cs t 0 0)))"
    and w: "width L = max 800 (fold (\<lambda>n m. max m (px n +
                     (case halfWidth n of None \<Rightarrow> 70 | Some h \<Rightarrow> if h = 0 then 70 else h)))
                   (map final (visibleNodes (placed fl cs t 0 0))) 0 + 200)"
    and h: "height L = max 600 (fold (\<lambda>n m. max m (py n))
                   (map final (visibleNodes (placed fl cs t 0 0))) 0 + 200)"
    by (rule layout_parts)
  have ns': "nodes L = visibleNodes (final (placed fl cs t 0 0))"
    unfolding ns by (simp add: visibleNodes_final)
  have hd: "hd (visibleNodes (final (placed fl cs t 0 0))) = final (placed fl cs t 0 0)"
    by (subst visibleNodes_unfold) simp
  have n1: "nodes L \<noteq> []"
    unfolding ns' by (subst visibleNodes_unfold) simp
  have n2: "sourceNode (hd (nodes L)) = t"
    unfolding ns' hd by (simp add: sourceNode_final sourceNode_placed)
  have w8: "800 \<le> width L" unfolding w by simp
  have h6: "600 \<le> height L" unfolding h by simp
  have err: "mindMapPanel fl a cs \<noteq> Some (Inl e)" for e
  proof (cases a)
    case (Present t')
    obtain L' where "calculateLayout fl (Present t') cs = Inr L'"
      by (rule layout_parts)
    with Present show ?thesis by (simp add: mindMapPanel_def)
  qed (simp_all add: mindMapPanel_def)
  have p: "mindMapPanel fl (Present t) cs = Some (Inr L)"
    using L by (simp add: mindMapPanel_def)
  from p L n1 n2 w8 h6 have "\<exists>L. mindMapPanel fl (Present t) cs = Some (Inr L) \<and>
      calculateLayout fl (Present t) cs = Inr L \<and>
      nodes L \<noteq> [] \<and> sourceNode (hd (nodes L)) = t \<and> 800 \<le> width L \<and> 600 \<le> height L"
    by (intro exI[of _ L] conjI)
  with err show ?thesis
    by (simp add: mindMapPanel_def calculateLayout_def)
qed

theorem empty_layout_without_tree_counterexample:
  "mindMapPanel id Null {} = None \<and>
   mindMapPanel id Null {} \<noteq>
     Some (Inr \<lparr>nodes = [], edges = [], width = 800, height = 600\<rparr>) \<and>
   calculateLayout id Null {} = Inl TypeError \<and>
   calculateLayout id Null {} \<noteq> Inr \<lparr>nodes = [], edges = [], width = 800, height = 600\<rparr>"
  by (simp add: mindMapPanel_def calculateLayout_def)



text \<open>
  C9. Take any store and any object of it below which the store holds a tree (what is
  reached through \<open>children\<close> within the fuel is a tree of objects of the store); every
  tree is held by some store. Then, for every collapsed set, the layout run on that
  object returns, and the store it leaves is the store it started from followed by new
  objects: every object the caller had, in the tree or not, has the same id, label, type
  and children as before and no field added or changed, so the tree below the root is
  the tree it was. Every node of the result is one of the new objects.
\<close>

theorem layout_leaves_input_unchanged:
  "(stringify fuel h rootNode = Some t \<longrightarrow>
      (\<exists>h' L. calculateLayoutH fl fuel h rootNode cs = Some (h', L) \<and>
         prefix h h' \<and> (\<forall>a<length h. h' ! a = h ! a) \<and>
         stringify fuel h' rootNode = Some t \<and>
         (\<forall>n\<in>set (hnodes L). length h \<le> n \<and> n < length h'))) \<and>
   (\<exists>fuel'. stringify fuel' (fst (parse t h0)) (snd (parse t h0)) = Some t)"
proof (intro conjI impI)
  assume s: "stringify fuel h rootNode = Some t"
  from calculateLayoutH_facts[OF s, of fl cs] obtain h' L where
    r: "calculateLayoutH fl fuel h rootNode cs = Some (h', L)"
    and p: "prefix h h'"
    and n: "\<forall>n\<in>set (hnodes L). length h \<le> n \<and> n < length h'"
    by blast
  have "\<forall>a<length h. h' ! a = h ! a"
    using p by (simp add: prefix_nth)
  moreover have "stringify fuel h' rootNode = Some t"
    using s p by (rule stringify_prefix)
  ultimately show "\<exists>h' L. calculateLayoutH fl fuel h rootNode cs = Some (h', L) \<and>
         prefix h h' \<and> (\<forall>a<length h. h' ! a = h ! a) \<and>
         stringify fuel h' rootNode = Some t \<and>
         (\<forall>n\<in>set (hnodes L). length h \<le> n \<and> n < length h')"
    using r p n by blast
next
  show "\<exists>fuel'. stringify fuel' (fst (parse t h0)) (snd (parse t h0)) = Some t"
    by (rule tree_in_heap)
qed

theorem layout_leaves_input_unchanged_witness:
  "stringify 2 sampleHeap 2 = Some (Node ''r'' ''Root'' ''root'' [Node ''a'' ''A'' ''child'' [], Node ''b'' ''ls -la'' ''code'' []]) \<and>
   (\<exists>h' L. calculateLayoutH id 2 sampleHeap 2 {} = Some (h', L) \<and>
      h' = sampleHeap @
            [callerObj ''a'' ''A'' ''child'' [], callerObj ''b'' ''ls -la'' ''code'' [],
             callerObj ''r'' ''Root'' ''root'' [3, 4],
             \<lparr>o_id = ''r'', o_label = ''Root'', o_type = ''root'', o_children = [7, 8],
              o_depth = Some 0, o_isCollapsed = Some False, o_x = Some 100, o_y = Some 90,
              o_halfWidth = Some 70\<rparr>,
             \<lparr>o_id = ''a'', o_label = ''A'', o_type = ''child'', o_children = [],
              o_depth = Some 1, o_isCollapsed = Some False, o_x = Some 400, o_y = Some 50,
              o_halfWidth = Some 70\<rparr>,
             \<lparr>o_id = ''b'', o_label = ''ls -la'', o_type = ''code'', o_children = [],
              o_depth = Some 1, o_isCollapsed = Some False, o_x = Some 400, o_y = Some 130,
              o_halfWidth = Some 70\<rparr>] \<and>
      hnodes L = [6, 7, 8] \<and>
      prefix sampleHeap h' \<and> (\<forall>a<length sampleHeap. h' ! a = sampleHeap ! a) \<and>
      stringify 2 h' 2 = Some (Node ''r'' ''Root'' ''root'' [Node ''a'' ''A'' ''child'' [], Node ''b'' ''ls -la'' ''code'' []]) \<and>
      (\<forall>n\<in>set (hnodes L). length sampleHeap \<le> n \<and> n < length h'))"
proof -
  have s: "stringify 2 sampleHeap 2 = Some (Node ''r'' ''Root'' ''root'' [Node ''a'' ''A'' ''child'' [], Node ''b'' ''ls -la'' ''code'' []])"
    by (simp add: sampleHeap_def callerObj_def numeral_2_eq_2)
  have "stringify 2 sampleHeap 2 = Some (Node ''r'' ''Root'' ''root'' [Node ''a'' ''A'' ''child'' [], Node ''b'' ''ls -la'' ''code'' []]) \<longrightarrow>
      (\<exists>h' L. calculateLayoutH id 2 sampleHeap 2 {} = Some (h', L) \<and>
         prefix sampleHeap h' \<and> (\<forall>a<length sampleHeap. h' ! a = sampleHeap ! a) \<and>
         stringify 2 h' 2 = Some (Node ''r'' ''Root'' ''root'' [Node ''a'' ''A'' ''child'' [], Node ''b'' ''ls -la'' ''code'' []]) \<and>
         (\<forall>n\<in>set (hnodes L). length sampleHeap \<le> n \<and> n < length h'))"
    using layout_leaves_input_unchanged[where fuel = 2 and h = sampleHeap and rootNode = 2
        and t = "Node ''r'' ''Root'' ''root'' [Node ''a'' ''A'' ''child'' [], Node ''b'' ''ls -la'' ''code'' []]" and fl = id and cs = "{}" and ?h0.0 = "[]"]
    by (rule conjunct1)
  from mp[OF this s] obtain h' L where
    r: "calculateLayoutH id 2 sampleHeap 2 {} = Some (h', L)"
    and p: "prefix sampleHeap h'"
    and a: "\<forall>a<length sampleHeap. h' ! a = sampleHeap ! a"
    and t: "stringify 2 h' 2 = Some (Node ''r'' ''Root'' ''root'' [Node ''a'' ''A'' ''child'' [], Node ''b'' ''ls -la'' ''code'' []])"
    and n: "\<forall>n\<in>set (hnodes L). length sampleHeap \<le> n \<and> n < length h'"
    by (elim exE conjE) (rule that)
  from sample_run r have e: "h' = sampleHeap @
            [callerObj ''a'' ''A'' ''child'' [], callerObj ''b'' ''ls -la'' ''code'' [],
             callerObj ''r'' ''Root'' ''root'' [3, 4],
             \<lparr>o_id = ''r'', o_label = ''Root'', o_type = ''root'', o_children = [7, 8],
              o_depth = Some 0, o_isCollapsed = Some False, o_x = Some 100, o_y = Some 90,
              o_halfWidth = Some 70\<rparr>,
             \<lparr>o_id = ''a'', o_label = ''A'', o_type = ''child'', o_children = [],
              o_depth = Some 1, o_isCollapsed = Some False, o_x = Some 400, o_y = Some 50,
              o_halfWidth = Some 70\<rparr>,
             \<lparr>o_id = ''b'', o_label = ''ls -la'', o_type = ''code'', o_children = [],
              o_depth = Some 1, o_isCollapsed = Some False, o_x = Some 400, o_y = Some 130,
              o_halfWidth = Some 70\<rparr>]" and l: "hnodes L = [6, 7, 8]"
    by simp_all
  from r e l p a t n have "\<exists>h' L. calculateLayoutH id 2 sampleHeap 2 {} = Some (h', L) \<and>
      h' = sampleHeap @
            [callerObj ''a'' ''A'' ''child'' [], callerObj ''b'' ''ls -la'' ''code'' [],
             callerObj ''r'' ''Root'' ''root'' [3, 4],
             \<lparr>o_id = ''r'', o_label = ''Root'', o_type = ''root'', o_children = [7, 8],
              o_depth = Some 0, o_isCollapsed = Some False, o_x = Some 100, o_y = Some 90,
              o_halfWidth = Some 70\<rparr>,
             \<lparr>o_id = ''a'', o_label = ''A'', o_type = ''child'', o_children = [],
              o_depth = Some 1, o_isCollapsed = Some False, o_x = Some 400, o_y = Some 50,
              o_halfWidth = Some 70\<rparr>,
             \<lparr>o_id = ''b'', o_label = ''ls -la'', o_type = ''code'', o_children = [],
              o_depth = Some 1, o_isCollapsed = Some False, o_x = Some 400, o_y = Some 130,
              o_halfWidth = Some 70\<rparr>] \<and>
      hnodes L = [6, 7, 8] \<and>
      prefix sampleHeap h' \<and> (\<forall>a<length sampleHeap. h' ! a = sampleHeap ! a) \<and>
      stringify 2 h' 2 = Some (Node ''r'' ''Root'' ''root'' [Node ''a'' ''A'' ''child'' [], Node ''b'' ''ls -la'' ''code'' []]) \<and>
      (\<forall>n\<in>set (hnodes L). length sampleHeap \<le> n \<and> n < length h')"
    by (intro exI[of _ h'] exI[of _ L] conjI)
  with s show ?thesis by (intro conjI)
qed

text \<open>
  C10. For every tree and collapsed set, the node list of the layout is the depth-first
  pre-order of the visible tree: node for node it is the list that starts with the root
  of the tree and, unless the id of the root is in the collapsed set, goes on with the
  lists of the children of the root, one after the other and made the same way. Each
  listed node is flagged collapsed exactly when its id is in the set, has the layouts of
  its children in the tree as children when it is not, and wherever it occurs in the list
  it is directly followed by its visible descendants, which are the visible nodes of the
  tree below it, in pre-order (so it comes before all of them); unless it is the first
  element, its parent, not collapsed, occurs earlier in the list.
\<close>

theorem layout_preorder:
  "\<exists>L. calculateLayout fl (Present t) cs = Inr L \<and>
     map sourceNode (nodes L) = visibleSub cs t \<and>
     (\<forall>n\<in>set (nodes L).
        isCollapsed n = (pid n \<in> cs) \<and>
        (\<not> isCollapsed n \<longrightarrow> map sourceNode (pchildren n) = children (sourceNode n)) \<and>
        map sourceNode (visibleNodes n) = visibleSub cs (sourceNode n)) \<and>
     nodes L \<noteq> [] \<and> sourceNode (hd (nodes L)) = t \<and> depth (hd (nodes L)) = 0 \<and>
     nodes L = visibleNodes (hd (nodes L)) \<and>
     (\<forall>as n bs. nodes L = as @ n # bs \<longrightarrow>
        prefix (visibleNodes n) (n # bs) \<and>
        (as \<noteq> [] \<longrightarrow>
           (\<exists>as1 m as2. as = as1 @ m # as2 \<and> \<not> isCollapsed m \<and> n \<in> set (pchildren m))))"
proof -
  let ?r = "final (placed fl cs t 0 0)"
  let ?ns = "map final (visibleNodes (placed fl cs t 0 0))"
  obtain L where L: "calculateLayout fl (Present t) cs = Inr L"
    and ns0: "nodes L = ?ns"
    by (rule layout_parts)
  then have ns: "nodes L = visibleNodes ?r"
    by (simp add: visibleNodes_final)
  have hd: "hd (visibleNodes ?r) = ?r"
    by (subst visibleNodes_unfold) simp
  show ?thesis
  proof (intro exI[of _ L] conjI allI impI ballI)
    show "calculateLayout fl (Present t) cs = Inr L" by fact
    show "map sourceNode (nodes L) = visibleSub cs t"
      unfolding ns0 by (simp add: comp_def sourceNode_final visible_placed)
    show "nodes L \<noteq> []"
      unfolding ns by (subst visibleNodes_unfold) simp
    show "sourceNode (hd (nodes L)) = t"
      unfolding ns hd by (simp add: sourceNode_final sourceNode_placed)
    show "depth (hd (nodes L)) = 0"
      unfolding ns hd by simp
    show "nodes L = visibleNodes (hd (nodes L))"
      unfolding ns hd ..
  next
    fix n assume "n \<in> set (nodes L)"
    then have n: "n \<in> set ?ns" by (simp only: ns0)
    show "isCollapsed n = (pid n \<in> cs)"
      by (rule layout_node(1)[OF n])
    show "map sourceNode (visibleNodes n) = visibleSub cs (sourceNode n)"
      by (rule layout_node(11)[OF n])
    assume "\<not> isCollapsed n"
    then show "map sourceNode (pchildren n) = children (sourceNode n)"
      by (rule layout_node(7)[OF n])
  next
    fix as n bs
    assume "nodes L = as @ n # bs"
    then have v: "visibleNodes ?r = as @ n # bs" by (simp only: ns)
    then show "prefix (visibleNodes n) (n # bs)"
      by (rule visibleNodes_prefix)
    assume "as \<noteq> []"
    with v show "\<exists>as1 m as2. as = as1 @ m # as2 \<and> \<not> isCollapsed m \<and> n \<in> set (pchildren m)"
      by (rule visibleNodes_parent)
  qed
qed

theorem layout_preorder_witness:
  "map nid (visibleSub {''c''} sampleTree) = [''r'', ''a'', ''a1'', ''a2'', ''b'', ''c''] \<and>
   (\<exists>L. calculateLayout id (Present sampleTree) {''c''} = Inr L \<and>
      map (\<lambda>n. (pid n, depth n, isCollapsed n, px n, py n, halfWidth n)) (nodes L) =
        [(''r'', 0, False, 100, 190, Some 70), (''a'', 1, False, 400, 90, Some 70),
         (''a1'', 2, False, 700, 50, Some 70), (''a2'', 2, False, 700, 130, Some 70),
         (''b'', 1, False, 400, 210, Some 70), (''c'', 1, True, 400, 290, Some 70)] \<and>
      map sourceNode (nodes L) = visibleSub {''c''} sampleTree \<and>
      (\<forall>n\<in>set (nodes L).
         isCollapsed n = (pid n \<in> {''c''}) \<and>
         (\<not> isCollapsed n \<longrightarrow> map sourceNode (pchildren n) = children (sourceNode n)) \<and>
         map sourceNode (visibleNodes n) = visibleSub {''c''} (sourceNode n)) \<and>
      nodes L \<noteq> [] \<and> sourceNode (hd (nodes L)) = sampleTree \<and> depth (hd (nodes L)) = 0 \<and>
      nodes L = visibleNodes (hd (nodes L)) \<and>
      (\<forall>as n bs. nodes L = as @ n # bs \<longrightarrow>
         prefix (visibleNodes n) (n # bs) \<and>
         (as \<noteq> [] \<longrightarrow>
            (\<exists>as1 m as2. as = as1 @ m # as2 \<and> \<not> isCollapsed m \<and> n \<in> set (pchildren m)))))"
proof -
  have w: "map nid (visibleSub {''c''} sampleTree) = [''r'', ''a'', ''a1'', ''a2'', ''b'', ''c'']"
    by (simp add: sampleTree_def)
  from layout_preorder[where fl = id and t = sampleTree and cs = "{''c''}"] obtain L where
    L: "calculateLayout id (Present sampleTree) {''c''} = Inr L"
    and a: "map sourceNode (nodes L) = visibleSub {''c''} sampleTree"
    and b: "\<forall>n\<in>set (nodes L).
         isCollapsed n = (pid n \<in> {''c''}) \<and>
         (\<not> isCollapsed n \<longrightarrow> map sourceNode (pchildren n) = children (sourceNode n)) \<and>
         map sourceNode (visibleNodes n) = visibleSub {''c''} (sourceNode n)"
    and c: "nodes L \<noteq> []"
    and d: "sourceNode (hd (nodes L)) = sampleTree"
    and e: "depth (hd (nodes L)) = 0"
    and f: "nodes L = visibleNodes (hd (nodes L))"
    and g: "\<forall>as n bs. nodes L = as @ n # bs \<longrightarrow>
         prefix (visibleNodes n) (n # bs) \<and>
         (as \<noteq> [] \<longrightarrow>
            (\<exists>as1 m as2. as = as1 @ m # as2 \<and> \<not> isCollapsed m \<and> n \<in> set (pchildren m)))"
    by (elim exE conjE) (rule that)
  from sample_layout L have
    s: "map (\<lambda>n. (pid n, depth n, isCollapsed n, px n, py n, halfWidth n)) (nodes L) =
        [(''r'', 0, False, 100, 190, Some 70), (''a'', 1, False, 400, 90, Some 70),
         (''a1'', 2, False, 700, 50, Some 70), (''a2'', 2, False, 700, 130, Some 70),
         (''b'', 1, False, 400, 210, Some 70), (''c'', 1, True, 400, 290, Some 70)]"
    by (elim exE conjE) simp
  from L s a b c d e f g have "\<exists>L. calculateLayout id (Present sampleTree) {''c''} = Inr L \<and>
      map (\<lambda>n. (pid n, depth n, isCollapsed n, px n, py n, halfWidth n)) (nodes L) =
        [(''r'', 0, False, 100, 190, Some 70), (''a'', 1, False, 400, 90, Some 70),
         (''a1'', 2, False, 700, 50, Some 70), (''a2'', 2, False, 700, 130, Some 70),
         (''b'', 1, False, 400, 210, Some 70), (''c'', 1, True, 400, 290, Some 70)] \<and>
      map sourceNode (nodes L) = visibleSub {''c''} sampleTree \<and>
      (\<forall>n\<in>set (nodes L).
         isCollapsed n = (pid n \<in> {''c''}) \<and>
         (\<not> isCollapsed n \<longrightarrow> map sourceNode (pchildren n) = children (sourceNode n)) \<and>
         map sourceNode (visibleNodes n) = visibleSub {''c''} (sourceNode n)) \<and>
      nodes L \<noteq> [] \<and> sourceNode (hd (nodes L)) = sampleTree \<and> depth (hd (nodes L)) = 0 \<and>
      nodes L = visibleNodes (hd (nodes L)) \<and>
      (\<forall>as n bs. nodes L = as @ n # bs \<longrightarrow>
         prefix (visibleNodes n) (n # bs) \<and>
         (as \<noteq> [] \<longrightarrow>
            (\<exists>as1 m as2. as = as1 @ m # as2 \<and> \<not> isCollapsed m \<and> n \<in> set (pchildren m))))"
    by (intro exI[of _ L] conjI)
  with w show ?thesis by (intro conjI)
qed

end
